theory Spec2Isabelle
  imports Main "HOL-Library.Word"
begin

unbundle bit_operations_syntax

section \<open>Data model\<close>

text \<open>
  A shallow embedding of \<^verbatim>\<open>wt_binary_decode.py\<close>, the stand-alone decoder of
  WiredTiger block files.  Python bytes are lists of 8-bit words, Python integers are
  unbounded and modelled by \<^typ>\<open>int\<close>.  Every exception the decoder can raise is a
  value of type \<open>error\<close>.
\<close>

type_synonym byte = "8 word"

datatype error =
    ValueError      \<comment> \<open>raised by \<^verbatim>\<open>unpack_int\<close>\<close>
  | IndexError      \<comment> \<open>indexing past the end of bytes, or \<^verbatim>\<open>read(1)[0]\<close> at end of file\<close>
  | ReadLength      \<comment> \<open>\<^verbatim>\<open>Exception('The read length must be >= 0')\<close> of \<^verbatim>\<open>BinFile.read\<close>\<close>
  | OverflowError   \<comment> \<open>a read length that does not fit the signed 64-bit size of the file object\<close>

section \<open>Variable-length integer packing\<close>

definition NEG_MULTI_MARKER :: int where "NEG_MULTI_MARKER = 0x10"
definition NEG_2BYTE_MARKER :: int where "NEG_2BYTE_MARKER = 0x20"
definition NEG_1BYTE_MARKER :: int where "NEG_1BYTE_MARKER = 0x40"
definition POS_1BYTE_MARKER :: int where "POS_1BYTE_MARKER = 0x80"
definition POS_2BYTE_MARKER :: int where "POS_2BYTE_MARKER = 0xc0"
definition POS_MULTI_MARKER :: int where "POS_MULTI_MARKER = 0xe0"

definition NEG_1BYTE_MIN :: int where "NEG_1BYTE_MIN = - (2 ^ 6)"
definition NEG_2BYTE_MIN :: int where "NEG_2BYTE_MIN = - (2 ^ 13) + NEG_1BYTE_MIN"
definition POS_1BYTE_MAX :: int where "POS_1BYTE_MAX = 2 ^ 6 - 1"
definition POS_2BYTE_MAX :: int where "POS_2BYTE_MAX = 2 ^ 13 + POS_1BYTE_MAX"

text \<open>\<^verbatim>\<open>getbits(x, start, end=0)\<close>: \<^verbatim>\<open>(x & ((1 << start) - 1)) >> end\<close>.\<close>

definition getbits :: "int \<Rightarrow> nat \<Rightarrow> nat \<Rightarrow> int" where
  "getbits x start end = drop_bit end (x AND (push_bit start 1 - 1))"

text \<open>
  \<^verbatim>\<open>get_int(b, size)\<close> folds \<open>size\<close> bytes, most significant first.  Indexing past
  the end of the bytes raises \<^verbatim>\<open>IndexError\<close>.  The accumulator is the loop variable
  \<^verbatim>\<open>r\<close>.
\<close>

fun get_int_from :: "int \<Rightarrow> byte list \<Rightarrow> nat \<Rightarrow> error + int" where
  "get_int_from r b 0 = Inr r"
| "get_int_from r [] (Suc n) = Inl IndexError"
| "get_int_from r (x # b) (Suc n) = get_int_from (push_bit 8 r OR uint x) b n"

definition get_int :: "byte list \<Rightarrow> nat \<Rightarrow> error + int" where
  "get_int b sz = get_int_from 0 b sz"

text \<open>
  \<^verbatim>\<open>unpack_int(b)\<close> returns the decoded value and the remaining bytes.  The six
  branches follow the source; \<^verbatim>\<open>b[0]\<close> and \<^verbatim>\<open>b[1]\<close> raise \<^verbatim>\<open>IndexError\<close>
  when the byte is missing, a slice never raises.
\<close>

definition unpack_int :: "byte list \<Rightarrow> error + (int \<times> byte list)" where
  "unpack_int b =
    (case b of
       [] \<Rightarrow> Inl IndexError
     | m # rest \<Rightarrow>
        (let marker = uint m in
         if marker < NEG_MULTI_MARKER \<or> marker \<ge> 0xf0 then Inl ValueError
         else if marker < NEG_2BYTE_MARKER then
           (let sz = 8 - getbits marker 4 0 in
            if sz < 0 then Inl ValueError
            else
              (let part1 = push_bit (nat (push_bit 3 sz)) (- 1 :: int) in
               case get_int rest (nat sz) of
                 Inl e \<Rightarrow> Inl e
               | Inr part2 \<Rightarrow> Inr (part1 OR part2, drop (nat sz + 1) b)))
         else if marker < NEG_1BYTE_MARKER then
           (case rest of
              [] \<Rightarrow> Inl IndexError
            | b1 # _ \<Rightarrow>
                Inr (NEG_2BYTE_MIN + (push_bit 8 (getbits marker 5 0) OR uint b1), drop 2 b))
         else if marker < POS_1BYTE_MARKER then
           Inr (NEG_1BYTE_MIN + getbits marker 6 0, drop 1 b)
         else if marker < POS_2BYTE_MARKER then
           Inr (getbits marker 6 0, drop 1 b)
         else if marker < POS_MULTI_MARKER then
           (case rest of
              [] \<Rightarrow> Inl IndexError
            | b1 # _ \<Rightarrow>
                Inr (POS_1BYTE_MAX + 1 + (push_bit 8 (getbits marker 5 0) OR uint b1), drop 2 b))
         else
           (let sz = getbits marker 4 0 in
            case get_int rest (nat sz) of
              Inl e \<Rightarrow> Inl e
            | Inr v \<Rightarrow> Inr (POS_2BYTE_MAX + 1 + v, drop (nat sz + 1) b))))"

text \<open>
  The value of a byte string read as a big-endian unsigned number.  This is the reading
  the format comment of the source gives to the bytes that follow a multi-byte marker;
  it is stated by arithmetic, independently of the shifts in \<open>get_int\<close>.
\<close>

definition be_value :: "byte list \<Rightarrow> int" where
  "be_value bs = foldl (\<lambda>a x. a * 256 + uint x) 0 bs"

text \<open>
  The number of bytes that follow the marker, from the table in the comment that heads
  the packing code (column ``Next bytes'').
\<close>

definition following_bytes :: "int \<Rightarrow> int" where
  "following_bytes marker =
    (if marker < 0x10 \<or> 0xf0 \<le> marker then 0
     else if marker < 0x20 then 8 - marker mod 16
     else if marker < 0x40 then 1
     else if marker < 0xc0 then 0
     else if marker < 0xe0 then 1
     else marker mod 16)"

section \<open>Byte streams\<close>

text \<open>
  \<^verbatim>\<open>BinFile\<close> wraps a file object (a file opened for reading, or an \<^verbatim>\<open>io.BytesIO\<close>): the
  bytes and the current position.  The bytes the wrapper saves for the split view are
  presentation only and are left out.  \<^verbatim>\<open>read(n)\<close> raises for a negative \<open>n\<close>; the
  file object underneath raises \<^verbatim>\<open>OverflowError\<close> for a length above the largest
  signed 64-bit size (\<^verbatim>\<open>sys.maxsize\<close>); otherwise at most \<open>n\<close> bytes are returned,
  fewer at the end of the data.  \<^verbatim>\<open>seek\<close> may move past the end.
\<close>

record stream =
  sdata :: "byte list"
  spos :: nat

datatype 'a result = Ok 'a | Raise error

definition tell :: "stream \<Rightarrow> nat" where
  "tell s = spos s"

definition seek :: "nat \<Rightarrow> stream \<Rightarrow> stream" where
  "seek n s = s\<lparr>spos := n\<rparr>"

definition read_bytes :: "nat \<Rightarrow> stream \<Rightarrow> byte list \<times> stream" where
  "read_bytes n s =
    (let r = take n (drop (spos s) (sdata s)) in (r, s\<lparr>spos := spos s + length r\<rparr>))"

definition read :: "int \<Rightarrow> stream \<Rightarrow> byte list result \<times> stream" where
  "read n s =
    (if n < 0 then (Raise ReadLength, s)
     else if 2 ^ 63 \<le> n then (Raise OverflowError, s)
     else (let (r, s') = read_bytes (nat n) s in (Ok r, s')))"

text \<open>\<^verbatim>\<open>b.read(1)[0]\<close>: the next byte, \<^verbatim>\<open>IndexError\<close> at the end of the data.\<close>

definition read1 :: "stream \<Rightarrow> int result \<times> stream" where
  "read1 s =
    (case read_bytes 1 s of
       ([], s') \<Rightarrow> (Raise IndexError, s')
     | (x # _, s') \<Rightarrow> (Ok (uint x), s'))"

text \<open>\<^verbatim>\<open>int.from_bytes(bs, byteorder='little')\<close>; the empty string gives 0.\<close>

fun from_bytes_little :: "byte list \<Rightarrow> int" where
  "from_bytes_little [] = 0"
| "from_bytes_little (x # bs) = uint x + 256 * from_bytes_little bs"

definition uint_n :: "nat \<Rightarrow> stream \<Rightarrow> int \<times> stream" where
  "uint_n n s = (let (r, s') = read_bytes n s in (from_bytes_little r, s'))"

definition uint8 :: "stream \<Rightarrow> int \<times> stream" where "uint8 = uint_n 1"
definition uint16 :: "stream \<Rightarrow> int \<times> stream" where "uint16 = uint_n 2"
definition uint32 :: "stream \<Rightarrow> int \<times> stream" where "uint32 = uint_n 4"
definition uint64 :: "stream \<Rightarrow> int \<times> stream" where "uint64 = uint_n 8"

text \<open>
  \<^verbatim>\<open>unpack_uint64_with_sz(b)\<close> runs \<open>unpack_int\<close> on a \<^verbatim>\<open>file_as_array\<close> view of the
  stream.  The view turns the index \<open>i\<close> into a read of one byte; \<open>unpack_int\<close> asks for
  the indices \<open>0\<close>, \<open>1\<close>, ... in increasing order, each exactly once, so every access is
  the next unread byte and the view never seeks.  Hence the decoder sees the bytes from
  the current position on, and the stream advances by the bytes it looked at: all the
  bytes of the number on success, the marker alone when the marker is refused, and up to
  the end of the data when a byte is missing.  \<open>sz\<close> is \<^verbatim>\<open>b.tell() - start\<close>.
\<close>

definition unpack_uint64_with_sz :: "stream \<Rightarrow> (int \<times> int) result \<times> stream" where
  "unpack_uint64_with_sz s =
    (let avail = drop (spos s) (sdata s) in
     case unpack_int avail of
       Inr (val, rest) \<Rightarrow>
         (let used = length avail - length rest in
          (Ok (val, int used), s\<lparr>spos := spos s + used\<rparr>))
     | Inl e \<Rightarrow>
         (Raise e, s\<lparr>spos := (if e = ValueError then spos s + 1
                              else max (spos s) (length (sdata s)))\<rparr>))"

definition unpack_uint64 :: "stream \<Rightarrow> int result \<times> stream" where
  "unpack_uint64 s =
    (case unpack_uint64_with_sz s of
       (Ok (val, sz), s') \<Rightarrow> (Ok val, s')
     | (Raise e, s') \<Rightarrow> (Raise e, s'))"

section \<open>Headers, statistics and printed output\<close>

record PageHeader =
  recno :: int
  writegen :: int
  memsize :: int
  ncells :: int
  ptype :: int       \<comment> \<open>\<^verbatim>\<open>pagehead.type\<close>\<close>
  pflags :: int      \<comment> \<open>\<^verbatim>\<open>pagehead.flags\<close>\<close>
  version :: int

record BlockHeader =
  disk_size :: int
  checksum :: int
  bflags :: int      \<comment> \<open>\<^verbatim>\<open>blockhead.flags\<close>\<close>

record PageStats =
  num_keys :: int
  keys_sz :: int
  num_d_start_ts :: int
  d_start_ts_sz :: int
  num_d_stop_ts :: int
  d_stop_ts_sz :: int
  num_start_ts :: int
  start_ts_sz :: int
  num_stop_ts :: int
  stop_ts_sz :: int
  num_start_txn :: int
  start_txn_sz :: int
  num_stop_txn :: int
  stop_txn_sz :: int

definition PageStats0 :: PageStats where
  "PageStats0 = \<lparr>num_keys = 0, keys_sz = 0, num_d_start_ts = 0, d_start_ts_sz = 0,
     num_d_stop_ts = 0, d_stop_ts_sz = 0, num_start_ts = 0, start_ts_sz = 0,
     num_stop_ts = 0, stop_ts_sz = 0, num_start_txn = 0, start_txn_sz = 0,
     num_stop_txn = 0, stop_txn_sz = 0\<rparr>"

text \<open>
  A printed string is kept as its text with the numbers it formats left unrendered: the
  template (with \<open>{}\<close> where a number goes) and the numbers in order.  Concatenation of
  Python strings is \<open>fcat\<close>.  Rendering of numbers and of raw bytes is presentation.
\<close>

type_synonym fmt = "string \<times> int list"

definition fcat :: "fmt \<Rightarrow> fmt \<Rightarrow> fmt" where
  "fcat a b = (fst a @ fst b, snd a @ snd b)"

definition lit :: "string \<Rightarrow> fmt" where
  "lit s = (s, [])"

text \<open>What \<^verbatim>\<open>raw_bytes\<close> shows: the packed integers it decoded and the bytes left over.\<close>

datatype shown = Shown "int list" "byte list"

text \<open>
  The calls made on the \<^verbatim>\<open>Printer\<close> and on \<^verbatim>\<open>print\<close>, in order.  \<open>Rint_v\<close> lines
  are shown only under \<^verbatim>\<open>--verbose\<close>.  \<open>Begin_cell\<close> also notes the position of the
  stream the printer is attached to at the time of the call (the value of
  \<^verbatim>\<open>cellpos\<close>).
\<close>

datatype event =
    Rint fmt
  | Rint_v fmt
  | Rint_v_raw shown
  | Rint_v_binary "byte list"
  | Dump_line nat "byte list"
  | Begin_cell nat nat
  | End_cell
  | Print fmt
  | Traceback
  | Outfile_write fmt
  | Outfile_stats int int int int PageStats

record dstate =
  bstream :: stream      \<comment> \<open>the stream \<^verbatim>\<open>b\<close> being decoded\<close>
  pagestats :: PageStats
  out :: "event list"

type_synonym 'a dec = "dstate \<Rightarrow> 'a result \<times> dstate"

definition ret :: "'a \<Rightarrow> 'a dec" where
  "ret x st = (Ok x, st)"

definition bnd :: "'a dec \<Rightarrow> ('a \<Rightarrow> 'b dec) \<Rightarrow> 'b dec" where
  "bnd m f st = (case m st of (Ok x, st') \<Rightarrow> f x st' | (Raise e, st') \<Rightarrow> (Raise e, st'))"

definition on_b :: "(stream \<Rightarrow> 'a result \<times> stream) \<Rightarrow> 'a dec" where
  "on_b f st = (case f (bstream st) of (r, s') \<Rightarrow> (r, st\<lparr>bstream := s'\<rparr>))"

definition on_b_total :: "(stream \<Rightarrow> 'a \<times> stream) \<Rightarrow> 'a dec" where
  "on_b_total f st = (case f (bstream st) of (r, s') \<Rightarrow> (Ok r, st\<lparr>bstream := s'\<rparr>))"

definition emit :: "event \<Rightarrow> unit dec" where
  "emit e st = (Ok (), st\<lparr>out := out st @ [e]\<rparr>)"

definition rint :: "fmt \<Rightarrow> unit dec" where "rint s = emit (Rint s)"
definition rint_v :: "fmt \<Rightarrow> unit dec" where "rint_v s = emit (Rint_v s)"

definition upd_stats :: "(PageStats \<Rightarrow> PageStats) \<Rightarrow> unit dec" where
  "upd_stats f st = (Ok (), st\<lparr>pagestats := f (pagestats st)\<rparr>)"

definition seq :: "unit dec \<Rightarrow> 'a dec \<Rightarrow> 'a dec" where
  "seq m k = bnd m (\<lambda>_. k)"

section \<open>Cells of a row-store page\<close>

text \<open>
  One timestamp or transaction field of \<^verbatim>\<open>process_timestamps\<close>: when the flag is set
  in the extra descriptor, a packed integer is read, its size and count are added to the
  statistics, and a line is printed.  The source writes this block out six times.
\<close>

definition ts_field ::
  "int \<Rightarrow> int \<Rightarrow> (int \<Rightarrow> PageStats \<Rightarrow> PageStats) \<Rightarrow> string \<Rightarrow> unit dec" where
  "ts_field extra flag upd label =
    (if extra AND flag \<noteq> 0 then
       bnd (on_b unpack_uint64_with_sz) (\<lambda>(t, sz).
       seq (upd_stats (upd sz))
           (rint_v (label, [t])))
     else ret ())"

definition process_timestamps :: "int \<Rightarrow> unit dec" where
  "process_timestamps extra =
    (if extra \<noteq> 0 then
       seq (rint_v (lit ''cell has timestamps:''))
      (seq (if extra AND 0x01 \<noteq> 0 then rint_v (lit '' prepared'') else ret ())
      (seq (ts_field extra 0x02
              (\<lambda>sz p. p\<lparr>d_start_ts_sz := d_start_ts_sz p + sz,
                         num_d_start_ts := num_d_start_ts p + 1\<rparr>)
              '' durable start ts: {}'')
      (seq (ts_field extra 0x04
              (\<lambda>sz p. p\<lparr>d_stop_ts_sz := d_stop_ts_sz p + sz,
                         num_d_stop_ts := num_d_stop_ts p + 1\<rparr>)
              '' durable stop ts: {}'')
      (seq (ts_field extra 0x08
              (\<lambda>sz p. p\<lparr>start_ts_sz := start_ts_sz p + sz,
                         num_start_ts := num_start_ts p + 1\<rparr>)
              '' start ts: {}'')
      (seq (ts_field extra 0x10
              (\<lambda>sz p. p\<lparr>stop_ts_sz := stop_ts_sz p + sz,
                         num_stop_ts := num_stop_ts p + 1\<rparr>)
              '' stop ts: {}'')
      (seq (ts_field extra 0x20
              (\<lambda>sz p. p\<lparr>start_txn_sz := start_txn_sz p + sz,
                         num_start_txn := num_start_txn p + 1\<rparr>)
              '' start txn: {}'')
      (seq (ts_field extra 0x40
              (\<lambda>sz p. p\<lparr>stop_txn_sz := stop_txn_sz p + sz,
                         num_stop_txn := num_stop_txn p + 1\<rparr>)
              '' stop txn: {}'')
           (if extra AND 0x80 \<noteq> 0
            then rint_v ('' *** JUNK in extra descriptor: {}'', [extra])
            else ret ()))))))))
     else ret ())"

definition celltype_string :: "int \<Rightarrow> string" where
  "celltype_string b =
    (if b = 0 then ''WT_CELL_ADDR_DEL''
     else if b = 1 then ''WT_CELL_ADDR_INT''
     else if b = 2 then ''WT_CELL_ADDR_LEAF''
     else if b = 3 then ''WT_CELL_ADDR_LEAF_NO''
     else if b = 4 then ''WT_CELL_DEL''
     else if b = 5 then ''WT_CELL_KEY''
     else if b = 6 then ''WT_CELL_KEY_OVFL''
     else if b = 12 then ''WT_CELL_KEY_OVFL_RM''
     else if b = 7 then ''WT_CELL_KEY_PFX''
     else if b = 8 then ''WT_CELL_VALUE''
     else if b = 9 then ''WT_CELL_VALUE_COPY''
     else if b = 10 then ''WT_CELL_VALUE_OVFL''
     else if b = 11 then ''WT_CELL_VALUE_OVFL_RM''
     else ''*** unknown cell type ***'')"

text \<open>\<^verbatim>\<open>long_length(p, b)\<close>: the packed length plus 64 (\<^verbatim>\<open>WT_CELL_SIZE_ADJUST\<close>).\<close>

definition long_length :: "int dec" where
  "long_length =
    bnd (on_b unpack_uint64) (\<lambda>v.
    let l = v + 64 in
    seq (if l < 0 then rint (''? unexpected negative length: {}'', [l]) else ret ())
        (ret l))"

text \<open>
  \<^verbatim>\<open>dumpraw(p, b, pos)\<close> prints up to 256 bytes from \<open>pos\<close>, 16 to a line, and puts
  the stream back where it was.
\<close>

definition dumpraw :: "nat \<Rightarrow> unit dec" where
  "dumpraw pos st =
    (let savepos = tell (bstream st);
         (bytes, s') = read_bytes 256 (seek pos (bstream st));
         per_line = 16;
         lines = map (\<lambda>i. Dump_line (pos + i * per_line) (take per_line (drop (i * per_line) bytes)))
                     [0 ..< (length bytes + per_line - 1) div per_line]
     in (Ok (), st\<lparr>bstream := seek savepos s', out := out st @ lines\<rparr>))"

definition add_key :: "int \<Rightarrow> PageStats \<Rightarrow> PageStats" where
  "add_key l p = p\<lparr>num_keys := num_keys p + 1, keys_sz := keys_sz p + l\<rparr>"

text \<open>
  \<^verbatim>\<open>raw_bytes(b)\<close> first decodes packed integers while the next byte is at least
  \<open>0x7f\<close>; \<open>unpack_int\<close> may raise there.  What is left is shown as text or as a hex
  dump, which cannot fail.
\<close>

lemma unpack_int_shorter:
  assumes "unpack_int s = Inr (v, r)"
  shows "length r < length s"
proof (cases s)
  case Nil
  then show ?thesis using assms by (simp add: unpack_int_def)
next
  case (Cons m rest)
  then show ?thesis using assms
    by (auto simp add: unpack_int_def Let_def split: if_splits sum.splits list.splits)
qed

function raw_bytes_ints :: "byte list \<Rightarrow> error + (int list \<times> byte list)" where
  "raw_bytes_ints s =
    (if s \<noteq> [] \<and> 0x7f \<le> uint (hd s) then
       (case unpack_int s of
          Inl e \<Rightarrow> Inl e
        | Inr (val, s') \<Rightarrow>
            (case raw_bytes_ints s' of
               Inl e \<Rightarrow> Inl e
             | Inr (vals, r) \<Rightarrow> Inr (val # vals, r)))
     else Inr ([], s))"
  by pat_completeness auto
termination
  by (relation "measure length") (auto dest: unpack_int_shorter)

definition raw_bytes :: "byte list \<Rightarrow> error + shown" where
  "raw_bytes x =
    (case raw_bytes_ints x of
       Inl e \<Rightarrow> Inl e
     | Inr (vals, r) \<Rightarrow> Inr (Shown vals r))"

text \<open>
  The long form of a cell (the bottom two bits of the descriptor are 0), in the three
  steps of the source: the optional extra descriptor byte with its timestamps, the
  optional run length, and the cell by its type.  The result is the pair \<^verbatim>\<open>(s, x)\<close>
  of the source, the description of the cell and its bytes, with \<open>None\<close> standing for
  \<^verbatim>\<open>s == '?'\<close>, and the current value of \<^verbatim>\<open>desc_str\<close>.
\<close>

definition cell_extra :: "int \<Rightarrow> fmt \<Rightarrow> (int \<times> fmt) dec" where
  "cell_extra desc desc_str =
    (if desc AND 0x8 \<noteq> 0 then
       bnd (on_b read1) (\<lambda>extra.
       seq (rint_v (fcat desc_str (''extra: 0x{}'', [extra])))
      (seq (process_timestamps extra)
           (ret (extra, lit ''''))))
     else ret (0, desc_str))"

definition cell_runlength :: "int \<Rightarrow> fmt \<Rightarrow> fmt dec" where
  "cell_runlength desc desc_str =
    (if desc AND 0x4 \<noteq> 0 then
       bnd (on_b unpack_uint64) (\<lambda>runlength.
       seq (rint_v (fcat desc_str (''runlength/addr: {}'', [runlength])))
           (ret (lit '''')))
     else ret desc_str)"

definition cell_typed ::
  "int \<Rightarrow> int \<Rightarrow> fmt \<Rightarrow> ((fmt \<times> byte list) option \<times> fmt) dec" where
  "cell_typed desc extra desc_str =
   (let celltype_int = drop_bit 4 (desc AND 0xf0);
        celltype = celltype_string celltype_int
    in
    if celltype = ''WT_CELL_VALUE'' then
      bnd (if extra \<noteq> 0 then on_b unpack_uint64 else long_length) (\<lambda>l.
      bnd (on_b (read l)) (\<lambda>x.
      ret (Some ((''val {} bytes'', [l]), x), desc_str)))
    else if celltype = ''WT_CELL_KEY'' then
      bnd long_length (\<lambda>l.
      bnd (on_b (read l)) (\<lambda>x.
      seq (upd_stats (add_key l))
          (ret (Some ((''key {} bytes'', [l]), x), desc_str))))
    else if celltype = ''WT_CELL_ADDR_LEAF_NO'' then
      bnd long_length (\<lambda>l.
      bnd (on_b (read l)) (\<lambda>x.
      seq (upd_stats (add_key l))
          (ret (Some ((''addr (leaf no-overflow) {} bytes'', [l]), x), desc_str))))
    else if celltype = ''WT_CELL_KEY_PFX'' then
      bnd (on_b_total uint8) (\<lambda>prefix.
      bnd long_length (\<lambda>l.
      bnd (on_b (read l)) (\<lambda>x.
      seq (upd_stats (add_key l))
          (ret (Some ((''key prefix={} {} bytes'', [prefix, l]), x), desc_str)))))
    else if celltype = ''WT_CELL_KEY_OVFL'' then
      bnd (on_b unpack_uint64) (\<lambda>l.
      bnd (on_b (read l)) (\<lambda>x.
      seq (upd_stats (add_key l))
          (ret (Some ((''overflow key {} bytes'', [l]), x), desc_str))))
    else if celltype = ''WT_CELL_VALUE_OVFL'' then
      bnd (on_b unpack_uint64) (\<lambda>l.
      bnd (on_b (read l)) (\<lambda>x.
      ret (Some ((''overflow val {} bytes'', [l]), x), desc_str)))
    else
      seq (rint (fcat desc_str
                  ('', celltype = {} ('' @ celltype @ '') not implemented'', [celltype_int])))
          (ret (None, lit '''')))"

definition cell_long :: "int \<Rightarrow> fmt \<Rightarrow> ((fmt \<times> byte list) option \<times> fmt) dec" where
  "cell_long desc desc_str0 =
    bnd (cell_extra desc desc_str0) (\<lambda>(extra, desc_str1).
    bnd (cell_runlength desc desc_str1) (\<lambda>desc_str.
    cell_typed desc extra desc_str))"

text \<open>The bytes of the stream that have not been read yet.\<close>

definition avail :: "stream \<Rightarrow> byte list" where
  "avail s = drop (spos s) (sdata s)"

text \<open>
  The body of the \<^verbatim>\<open>try\<close> of one loop iteration: the descriptor byte, the cell by its
  form, then the printing of the cell, where the two exceptions \<open>raw_bytes\<close> can raise are
  swallowed.
\<close>

definition cell_parse :: "((fmt \<times> byte list) option \<times> fmt) dec" where
  "cell_parse =
    bnd (on_b_total uint8) (\<lambda>desc.
    let short = desc AND 0x3;
        desc_str = (''desc: 0x{} '', [desc])
    in
    if short = 0 then cell_long desc desc_str
    else if short = 2 then
      (let l = drop_bit 2 (desc AND 0xfc) in
       bnd (on_b read1) (\<lambda>pfx_compress_byte.
       bnd (on_b (read l)) (\<lambda>x.
       seq (upd_stats (add_key l))
           (ret (Some ((''short key prefix={} {} bytes'', [pfx_compress_byte, l]), x),
                 desc_str)))))
    else
      (let l = drop_bit 2 (desc AND 0xfc) in
       bnd (if short = 1 then
              seq (upd_stats (add_key l)) (ret (''short key {} bytes'', [l]))
            else ret (''short val {} bytes'', [l])) (\<lambda>s.
       bnd (on_b (read l)) (\<lambda>x.
       ret (Some (s, x), desc_str)))))"

definition cell_print :: "nat \<Rightarrow> (fmt \<times> byte list) option \<times> fmt \<Rightarrow> unit dec" where
  "cell_print cellpos c =
    (case c of
       (Some (s, x), desc_str) \<Rightarrow>
         seq (rint_v (fcat desc_str (fcat s (lit '':''))))
             (case raw_bytes x of
                Inr sh \<Rightarrow> emit (Rint_v_raw sh)
              | Inl e \<Rightarrow> ret ())
     | (None, desc_str) \<Rightarrow> dumpraw cellpos)"

text \<open>
  One iteration after the \<^verbatim>\<open>memsize\<close> test: \<^verbatim>\<open>begin_cell\<close>, the \<^verbatim>\<open>try\<close> body, and
  \<^verbatim>\<open>end_cell\<close> in the \<^verbatim>\<open>finally\<close> clause, which runs whether or not the body raised.
\<close>

definition row_cell :: "nat \<Rightarrow> nat \<Rightarrow> unit dec" where
  "row_cell cellnum cellpos st =
    (case seq (emit (Begin_cell cellnum cellpos)) (bnd cell_parse (cell_print cellpos)) st of
       (r, st') \<Rightarrow> (r, st'\<lparr>out := out st' @ [End_cell]\<rparr>))"

text \<open>
  \<^verbatim>\<open>row_decode\<close>: the loop \<^verbatim>\<open>for cellnum in range(0, pagehead.ncells)\<close>.  The first
  argument counts the iterations that remain, the second is \<^verbatim>\<open>cellnum\<close>.
\<close>

fun row_loop :: "PageHeader \<Rightarrow> nat \<Rightarrow> nat \<Rightarrow> unit dec" where
  "row_loop pagehead 0 cellnum st = (Ok (), st)"
| "row_loop pagehead (Suc n) cellnum st =
    (let cellpos = tell (bstream st) in
     if int cellpos \<ge> memsize pagehead then rint_v (lit ''** OVERFLOW memsize **'') st
     else
       (case row_cell cellnum cellpos st of
          (Ok u, st') \<Rightarrow> row_loop pagehead n (Suc cellnum) st'
        | (Raise e, st') \<Rightarrow> (Raise e, st')))"

definition row_decode :: "PageHeader \<Rightarrow> unit dec" where
  "row_decode pagehead = row_loop pagehead (nat (ncells pagehead)) 0"

section \<open>Blocks and the scan of a file\<close>

definition pagetype_string :: "int \<Rightarrow> string" where
  "pagetype_string b =
    (if b = 0 then ''WT_PAGE_INVALID''
     else if b = 1 then ''WT_PAGE_BLOCK_MANAGER''
     else if b = 2 then ''WT_PAGE_COL_FIX''
     else if b = 3 then ''WT_PAGE_COL_INT''
     else if b = 4 then ''WT_PAGE_COL_VAR''
     else if b = 5 then ''WT_PAGE_OVFL''
     else if b = 6 then ''WT_PAGE_ROW_INT''
     else if b = 7 then ''WT_PAGE_ROW_LEAF''
     else ''*** unknown page type ***'')"

text \<open>
  The two optional modules of the script are parameters of the model: whether
  \<^verbatim>\<open>crc32c\<close> and \<^verbatim>\<open>snappy\<close> could be imported, the checksum function, and
  \<^verbatim>\<open>snappy.uncompress\<close>, where \<open>None\<close> stands for any exception it raises.
\<close>

record env =
  have_crc32c :: bool
  crc32c :: "byte list \<Rightarrow> int"
  have_snappy :: bool
  uncompress :: "byte list \<Rightarrow> byte list option"

text \<open>
  The command line options the decoder reads.  \<open>csv_output\<close> says whether a CSV file was
  given (\<^verbatim>\<open>opts.output != None\<close>); the offset is taken to be non-negative.  The options
  \<^verbatim>\<open>--split\<close> and \<^verbatim>\<open>--verbose\<close> only select what the printer shows.
\<close>

record opts =
  offset :: nat
  pages :: int
  fragment :: bool
  skip_data :: bool
  debug :: bool
  csv_output :: bool

text \<open>\<^verbatim>\<open>file_header_decode(p, b)\<close>.  Every path returns \<^verbatim>\<open>None\<close>.\<close>

definition file_header_decode :: "unit dec" where
  "file_header_decode =
    bnd (on_b_total uint32) (\<lambda>magic.
    bnd (on_b_total uint16) (\<lambda>major.
    bnd (on_b_total uint16) (\<lambda>minor.
    bnd (on_b_total uint32) (\<lambda>cksum.
    bnd (on_b_total uint32) (\<lambda>unused.
    seq (rint (''magic: {}'', [magic]))
   (seq (rint (''major: {}'', [major]))
   (seq (rint (''minor: {}'', [minor]))
   (seq (rint (''checksum: {}'', [cksum]))
        (if magic \<noteq> 120897 then rint (lit ''bad magic number'')
         else if major \<noteq> 1 then rint (lit ''bad major number'')
         else if minor \<noteq> 0 then rint (lit ''bad minor number'')
         else if unused \<noteq> 0 then rint (lit ''garbage in unused bytes'')
         else rint (lit ''''))))))))))"

text \<open>
  The 28 bytes of \<^verbatim>\<open>WT_PAGE_HEADER\<close>, read from the page stream; the second
  component is the unused byte.
\<close>

definition page_header_decode :: "stream \<Rightarrow> (PageHeader \<times> int) \<times> stream" where
  "page_header_decode s0 =
    (let (v_recno, s1) = uint64 s0;
         (v_writegen, s2) = uint64 s1;
         (v_memsize, s3) = uint32 s2;
         (v_ncells, s4) = uint32 s3;
         (v_type, s5) = uint8 s4;
         (v_flags, s6) = uint8 s5;
         (unused, s7) = uint8 s6;
         (v_version, s8) = uint8 s7
     in ((\<lparr>recno = v_recno, writegen = v_writegen, memsize = v_memsize, ncells = v_ncells,
           ptype = v_type, pflags = v_flags, version = v_version\<rparr>, unused), s8))"

definition print_page_header :: "PageHeader \<Rightarrow> unit dec" where
  "print_page_header pagehead =
    seq (rint (lit ''Page Header:''))
   (seq (rint (''  recno: {}'', [recno pagehead]))
   (seq (rint (''  writegen: {}'', [writegen pagehead]))
   (seq (rint (''  memsize: {}'', [memsize pagehead]))
   (seq (rint (''  ncells (oflow len): {}'', [ncells pagehead]))
   (seq (rint (''  page type: {} ('' @ pagetype_string (ptype pagehead) @ '')'',
               [ptype pagehead]))
   (seq (rint (''  page flags: {}'', [pflags pagehead]))
        (rint (''  version: {}'', [version pagehead]))))))))"

text \<open>
  The 12 bytes of \<^verbatim>\<open>WT_BLOCK_HEADER\<close>.  The test of the three unused bytes is an
  \<^verbatim>\<open>or\<close> of three reads, so a later byte is read only when the earlier ones are 0.
\<close>

definition block_header_decode :: "stream \<Rightarrow> BlockHeader \<times> bool" where
  "block_header_decode s0 =
    (let (v_disk_size, s1) = uint32 s0;
         (v_checksum, s2) = uint32 s1;
         (v_flags, s3) = uint8 s2;
         (u1, s4) = uint8 s3
     in (\<lparr>disk_size = v_disk_size, checksum = v_checksum, bflags = v_flags\<rparr>,
         if u1 \<noteq> 0 then True
         else (let (u2, s5) = uint8 s4 in
               if u2 \<noteq> 0 then True
               else (let (u3, s6) = uint8 s5 in u3 \<noteq> 0))))"

definition print_block_header :: "BlockHeader \<Rightarrow> unit dec" where
  "print_block_header blockhead =
    seq (rint (lit ''Block Header:''))
   (seq (rint (''  disk_size: {}'', [disk_size blockhead]))
   (seq (rint (''  checksum: {}'', [checksum blockhead]))
        (rint (''  block flags: {}'', [bflags blockhead]))))"

text \<open>
  The checksum test, run when \<^verbatim>\<open>crc32c\<close> is there.  The result says whether
  \<open>block_decode\<close> goes on.  The bytes of the block are read again from its start and the
  stream is put back.  The assignment \<^verbatim>\<open>data[32] = data[33] = data[34] = data[35] = 0\<close>
  comes before the test of the length, and raises \<^verbatim>\<open>IndexError\<close> when fewer than
  36 bytes were read.
\<close>

definition verify_checksum :: "env \<Rightarrow> nat \<Rightarrow> BlockHeader \<Rightarrow> bool dec" where
  "verify_checksum env disk_pos blockhead st =
    (if have_crc32c env then
       (let savepos = tell (bstream st);
            check_size = (if bflags blockhead AND 1 \<noteq> 0 then disk_size blockhead else 64)
        in case read check_size (seek disk_pos (bstream st)) of
             (Raise e, b') \<Rightarrow> (Raise e, st\<lparr>bstream := b'\<rparr>)
           | (Ok data0, b') \<Rightarrow>
               (let st1 = st\<lparr>bstream := seek savepos b'\<rparr> in
                if length data0 < 36 then (Raise IndexError, st1)
                else
                  (let data = data0[32 := 0, 33 := 0, 34 := 0, 35 := 0] in
                   if int (length data) < check_size then
                     seq (rint (lit ''? reached EOF before the end of the block''))
                         (ret False) st1
                   else
                     (let cks = crc32c env data in
                      if cks \<noteq> checksum blockhead then
                        seq (rint (''? the checksum does not match {}'', [cks]))
                            (ret False) st1
                      else ret True st1))))
     else ret True st)"

text \<open>
  The compressed payload: the body of the \<^verbatim>\<open>try\<close>, whose \<^verbatim>\<open>except\<close> catches
  everything, so the result is \<open>None\<close> whenever something was raised (a negative read
  length, or \<^verbatim>\<open>snappy.uncompress\<close>).
\<close>

definition compressed_payload ::
  "env \<Rightarrow> nat \<Rightarrow> int \<Rightarrow> BlockHeader \<Rightarrow> dstate \<Rightarrow> byte list option \<times> dstate" where
  "compressed_payload env disk_pos header_length blockhead st =
    (let compress_skip = 64 in
     case read (compress_skip - header_length) (bstream st) of
       (Raise e, b1) \<Rightarrow> (None, st\<lparr>bstream := b1\<rparr>)
     | (Ok payload_data, b1) \<Rightarrow>
         (let (n, b2) = uint64 b1;
              len = min n (disk_size blockhead - compress_skip - 8)
          in case read len b2 of
               (Raise e, b3) \<Rightarrow> (None, st\<lparr>bstream := b3\<rparr>)
             | (Ok compressed_data, b3) \<Rightarrow>
                 (let b4 = seek (nat (int disk_pos + disk_size blockhead)) b3 in
                  case uncompress env compressed_data of
                    None \<Rightarrow> (None, st\<lparr>bstream := b4\<rparr>)
                  | Some u \<Rightarrow> (Some (payload_data @ u), st\<lparr>bstream := b4\<rparr>))))"

text \<open>
  Reading the block contents.  \<open>None\<close> means that \<open>block_decode\<close> returns here.  An
  uncompressed page is read with the length \<^verbatim>\<open>pagehead.memsize - header_length\<close>,
  which \<^verbatim>\<open>BinFile.read\<close> refuses when it is negative.
\<close>

definition block_payload ::
  "env \<Rightarrow> opts \<Rightarrow> nat \<Rightarrow> int \<Rightarrow> PageHeader \<Rightarrow> BlockHeader \<Rightarrow> byte list option dec" where
  "block_payload env opts disk_pos header_length pagehead blockhead =
    (if pflags pagehead AND 1 \<noteq> 0 then
       (if have_snappy env then
          (\<lambda>st. case compressed_payload env disk_pos header_length blockhead st of
                  (Some payload_data, st') \<Rightarrow> (Ok (Some payload_data), st')
                | (None, st') \<Rightarrow>
                    seq (rint (lit ''? the page failed to uncompress''))
                   (seq (if debug opts then emit Traceback else ret ())
                        (ret None)) st')
        else
          seq (rint (lit ''? the page is compressed (install python-snappy to parse)''))
              (ret None))
     else
       bnd (on_b (read (memsize pagehead - header_length))) (\<lambda>payload_data.
       seq (on_b_total (\<lambda>b. ((), seek (nat (int disk_pos + disk_size blockhead)) b)))
           (ret (Some payload_data))))"

text \<open>
  The decoding of the page by its type, on the page stream.  \<^verbatim>\<open>raw_bytes\<close> is
  evaluated before \<^verbatim>\<open>rint_v\<close> is called, so what it raises is raised whether or not
  the output is verbose.
\<close>

definition page_contents :: "PageHeader \<Rightarrow> byte list \<Rightarrow> unit dec" where
  "page_contents pagehead payload_data =
    (if ptype pagehead = 0 then ret ()
     else if ptype pagehead = 1 then
       seq (rint_v (lit ''? unimplemented decode for page type WT_PAGE_BLOCK_MANAGER''))
           (emit (Rint_v_binary payload_data))
     else if ptype pagehead = 4 then
       seq (rint_v (lit ''? unimplemented decode for page type WT_PAGE_COLUMN_VARIABLE''))
           (emit (Rint_v_binary payload_data))
     else if ptype pagehead = 6 \<or> ptype pagehead = 7 then row_decode pagehead
     else if ptype pagehead = 5 then
       bnd (on_b (read (int (length payload_data)))) (\<lambda>x.
       case raw_bytes x of
         Inl e \<Rightarrow> (\<lambda>st. (Raise e, st))
       | Inr sh \<Rightarrow> emit (Rint_v_raw sh))
     else
       seq (rint_v (''? unimplemented decode for page type {}'', [ptype pagehead]))
           (emit (Rint_v_binary payload_data)))"

text \<open>Running a decoder on another stream; the stream \<open>b\<close> of the file is kept.\<close>

definition on_stream :: "stream \<Rightarrow> 'a dec \<Rightarrow> 'a dec" where
  "on_stream s m st =
    (case m (st\<lparr>bstream := s\<rparr>) of (r, st') \<Rightarrow> (r, st'\<lparr>bstream := bstream st\<rparr>))"

definition outfile_stats_end :: "opts \<Rightarrow> PageHeader \<Rightarrow> BlockHeader \<Rightarrow> unit dec" where
  "outfile_stats_end opts pagehead blockhead st =
    (if csv_output opts then
       emit (Outfile_stats (writegen pagehead) (ncells pagehead) (ptype pagehead)
               (disk_size blockhead) (pagestats st)) st
     else ret () st)"

text \<open>
  \<^verbatim>\<open>block_decode(p, b, opts)\<close>, in two parts: up to the page header, and from the block
  header on.  Each \<^verbatim>\<open>return\<close> of the source ends the function with \<open>Ok ()\<close>.
\<close>

definition block_body ::
  "env \<Rightarrow> opts \<Rightarrow> nat \<Rightarrow> byte list \<Rightarrow> PageHeader \<Rightarrow> stream \<Rightarrow> unit dec" where
  "block_body env opts disk_pos page_data pagehead b_page =
    (let (blockhead, garbage) = block_header_decode b_page in
     if garbage then rint (lit ''garbage in unused bytes'')
     else if disk_size blockhead > 17 * 1024 * 1024 then rint (lit ''the block is too big'')
     else if disk_size blockhead < 40 then ret ()
     else
       seq (print_block_header blockhead)
      (seq (upd_stats (\<lambda>_. PageStats0))
      (bnd (verify_checksum env disk_pos blockhead) (\<lambda>ok.
       if ok then
         (if skip_data opts then
            on_b_total (\<lambda>b. ((), seek (nat (int disk_pos + disk_size blockhead)) b))
          else
            (\<lambda>st.
              (let payload_pos = tell (bstream st);
                   header_length = int payload_pos - int disk_pos
               in bnd (block_payload env opts disk_pos header_length pagehead blockhead)
                    (\<lambda>payload. case payload of
                        None \<Rightarrow> ret ()
                      | Some payload_data \<Rightarrow>
                          seq (on_stream \<lparr>sdata = page_data @ payload_data,
                                          spos = nat header_length\<rparr>
                                 (page_contents pagehead payload_data))
                              (outfile_stats_end opts pagehead blockhead)) st)))
       else ret ()))))"

definition block_decode :: "env \<Rightarrow> opts \<Rightarrow> unit dec" where
  "block_decode env opts st =
    (let disk_pos = tell (bstream st);
         (page_data, b1) = read_bytes 40 (bstream st);
         st1 = st\<lparr>bstream := b1\<rparr>;
         ((pagehead, unused), b_page) = page_header_decode \<lparr>sdata = page_data, spos = 0\<rparr>
     in if unused \<noteq> 0 then rint (lit ''? garbage in unused bytes'') st1
        else if ptype pagehead = 0 then rint (lit ''? invalid page'') st1
        else seq (print_page_header pagehead)
                 (block_body env opts disk_pos page_data pagehead b_page) st1)"

text \<open>The CSV file: its header line, and the start of the line of a block.\<close>

definition outfile_header :: "opts \<Rightarrow> unit dec" where
  "outfile_header opts =
    (if csv_output opts then
       emit (Outfile_write (lit (''block id,writegen,memsize,ncells,page type,disk size,''
         @ ''num keys,keys size,num durable start ts,durable start ts size,''
         @ ''num durable stop ts,durable stop ts size,num start ts,start ts size,''
         @ ''num stop ts,stop ts size,num ts,ts size,num start txn,start txn size,''
         @ ''num stop txn,stop txn size,num txn,txn size'')))
     else ret ())"

definition outfile_stats_start :: "opts \<Rightarrow> nat \<Rightarrow> unit dec" where
  "outfile_stats_start opts blockid =
    (if csv_output opts then emit (Outfile_write (''\<newline>{},'', [int blockid])) else ret ())"

text \<open>\<^verbatim>\<open>(pos + 0x1FF) & ~(0x1FF)\<close>: the next multiple of 512.\<close>

definition align512 :: "nat \<Rightarrow> nat" where
  "align512 pos = nat ((int pos + 0x1FF) AND NOT 0x1FF)"

text \<open>
  One turn of the loop of \<^verbatim>\<open>wtdecode_file_object\<close>: the block at \<open>startblock\<close> is
  decoded, whatever it raises is reported, and the result is the next \<open>startblock\<close>.
\<close>

definition scan_step :: "env \<Rightarrow> opts \<Rightarrow> nat \<Rightarrow> dstate \<Rightarrow> nat \<times> dstate" where
  "scan_step env opts startblock st =
    (let st1 = snd (seq (outfile_stats_start opts startblock)
                   (seq (emit (Print (''Decode at {}'', [int startblock])))
                        (on_b_total (\<lambda>b. ((), seek startblock b)))) st);
         st2 = (case block_decode env opts st1 of
                  (Ok u, s) \<Rightarrow> s
                | (Raise e, s) \<Rightarrow>
                    snd (seq (rint (''ERROR decoding block at {}'', [int startblock]))
                             (if debug opts then emit Traceback else ret ()) s));
         st3 = snd (rint (lit '''') st2);
         pos = align512 (tell (bstream st3))
     in (if startblock = pos then startblock + 0x200 else pos, st3))"

text \<open>
  The loop itself.  With an unknown length (\<open>nbytes = 0\<close>, the standard input) and no
  page limit nothing ends it, so it is a partial function: \<open>None\<close> is the run that does
  not return.
\<close>

partial_function (option) scan_blocks ::
  "env \<Rightarrow> opts \<Rightarrow> int \<Rightarrow> nat \<Rightarrow> int \<Rightarrow> dstate \<Rightarrow> dstate option" where
  "scan_blocks env opts nbytes startblock pagecount st =
    (if (nbytes = 0 \<or> int startblock < nbytes) \<and> (pages opts = 0 \<or> pagecount < pages opts)
     then (case scan_step env opts startblock st of
             (startblock', st') \<Rightarrow> scan_blocks env opts nbytes startblock' (pagecount + 1) st')
     else Some st)"

declare scan_blocks.simps [code]

definition wtdecode_file_object :: "env \<Rightarrow> opts \<Rightarrow> int \<Rightarrow> dstate \<Rightarrow> dstate option" where
  "wtdecode_file_object env opts nbytes st =
    (let (startblock, st1) =
           (if offset opts = 0 \<and> \<not> fragment opts then
              (let st' = snd (file_header_decode st)
               in (align512 (tell (bstream st')), st'))
            else (offset opts, st));
         st2 = snd (outfile_header opts st1)
     in case scan_blocks env opts nbytes startblock 0 st2 of
          None \<Rightarrow> None
        | Some st3 \<Rightarrow> Some (snd (rint (lit '''') st3)))"

section \<open>Properties of the integer packing\<close>


lemma getbits0: "getbits x k 0 = x mod 2 ^ k"
  by (simp add: getbits_def push_bit_eq_mult flip: mask_eq_exp_minus_1 take_bit_eq_mask take_bit_eq_mod)

lemma push_or_add:
  fixes a y :: int
  assumes "0 \<le> y" "y < 2 ^ n"
  shows "push_bit n a OR y = a * 2 ^ n + y"
proof -
  have y: "take_bit n y = y" using assms by (simp add: take_bit_int_eq_self)
  have "push_bit n a + y = push_bit n a OR y"
  proof (rule disjunctive_add)
    fix k
    have "bit y k \<Longrightarrow> k < n" using y by (metis bit_take_bit_iff)
    then show "\<not> bit (push_bit n a) k \<or> \<not> bit y k" by (auto simp add: bit_push_bit_iff)
  qed
  then show ?thesis by (simp add: push_bit_eq_mult)
qed

lemma uint_byte_lt: "uint (x::byte) < 256"
  using uint_lt2p [of x] by simp

lemma push8_or_byte: "push_bit 8 (a::int) OR uint (x::byte) = a * 256 + uint x"
proof -
  show ?thesis using push_or_add [of "uint x" 8 a] uint_byte_lt [of x] by simp
qed

lemma get_int_from_foldl:
  "n \<le> length b \<Longrightarrow> get_int_from r b n = Inr (foldl (\<lambda>a x. a * 256 + uint x) r (take n b))"
proof (induction r b n rule: get_int_from.induct)
  case (3 r x b n)
  then show ?case by (simp add: push8_or_byte)
qed simp_all

lemma get_int_from_short:
  "length b < n \<Longrightarrow> get_int_from r b n = Inl IndexError"
  by (induction r b n rule: get_int_from.induct) simp_all

lemma get_int_be: "get_int (bs @ rest) (length bs) = Inr (be_value bs)"
  by (simp add: get_int_def be_value_def get_int_from_foldl)

lemma foldl_be_bounds:
  fixes bs :: "byte list"
  shows "0 \<le> r \<Longrightarrow> 0 \<le> foldl (\<lambda>a x. a * 256 + uint x) r bs \<and>
      foldl (\<lambda>a x. a * 256 + uint x) r bs < (r + 1) * 256 ^ length bs"
proof (induction bs arbitrary: r)
  case Nil then show ?case by simp
next
  case (Cons x bs)
  have x: "0 \<le> uint x" "uint x < 256" using uint_byte_lt [of x] by simp_all
  have r': "0 \<le> r * 256 + uint x" using Cons.prems x by simp
  define v where "v = foldl (\<lambda>a x. a * 256 + uint x) (r * 256 + uint x) bs"
  from Cons.IH [OF r'] have v: "0 \<le> v" "v < (r * 256 + uint x + 1) * 256 ^ length bs"
    by (simp_all add: v_def)
  have "(r * 256 + uint x + 1) * 256 ^ length bs \<le> ((r + 1) * 256) * 256 ^ length bs"
    using x by (intro mult_right_mono) simp_all
  with v have "v < ((r + 1) * 256) * 256 ^ length bs" by linarith
  then have "v < (r + 1) * 256 ^ length (x # bs)" by (simp add: algebra_simps)
  with v show ?case by (simp add: v_def)
qed

lemma be_value_bounds: "0 \<le> be_value bs" "be_value bs < 2 ^ (8 * length bs)"
proof -
  have "(256::int) ^ length bs = 2 ^ (8 * length bs)"
    by (simp add: power_mult)
  then show "0 \<le> be_value bs" "be_value bs < 2 ^ (8 * length bs)"
    using foldl_be_bounds [of 0 bs] by (simp_all add: be_value_def)
qed

lemma ones_or_be:
  "NOT (mask (8 * length bs)) OR be_value bs = be_value bs - 2 ^ (8 * length bs)"
  using push_or_add [OF be_value_bounds, of bs "- 1"]
  by (simp flip: push_bit_minus_one_eq_not_mask)

lemmas marker_defs = NEG_MULTI_MARKER_def NEG_2BYTE_MARKER_def NEG_1BYTE_MARKER_def
  POS_1BYTE_MARKER_def POS_2BYTE_MARKER_def POS_MULTI_MARKER_def
  NEG_1BYTE_MIN_def NEG_2BYTE_MIN_def POS_1BYTE_MAX_def POS_2BYTE_MAX_def

lemma unpack_reserved:
  "uint m < 0x10 \<or> 0xf0 \<le> uint m \<Longrightarrow> unpack_int (m # rest) = Inl ValueError"
  by (auto simp add: unpack_int_def marker_defs)

lemma unpack_neg_invalid:
  assumes "0x19 \<le> uint m" "uint m < 0x20"
  shows "unpack_int (m # rest) = Inl ValueError"
proof -
  have "uint m mod 16 = uint m - 16" using assms by presburger
  then show ?thesis using assms
    by (simp add: unpack_int_def marker_defs getbits0 Let_def)
qed

lemma unpack_neg_multi:
  assumes "0x10 \<le> uint m" "uint m \<le> 0x18" "int (length bs) = 8 - uint m mod 16"
  shows "unpack_int (m # bs @ rest) = Inr (be_value bs - 2 ^ (8 * length bs), rest)"
proof -
  have sz: "nat (8 - uint m mod 16) = length bs" using assms(3) by simp
  have sh: "nat (push_bit 3 (8 - uint m mod 16)) = 8 * length bs"
    using assms(3) by (simp add: push_bit_eq_mult flip: assms(3))
  have nn: "\<not> 8 - uint m mod 16 < 0" using assms(3) by simp
  show ?thesis using assms(1,2) nn
    by (simp add: unpack_int_def marker_defs getbits0 Let_def sz sh get_int_be ones_or_be)
qed

lemma unpack_neg_2byte:
  assumes "0x20 \<le> uint m" "uint m < 0x40"
  shows "unpack_int (m # b1 # rest) =
           Inr (- (2 ^ 13) - 2 ^ 6 + (uint m mod 32 * 256 + uint b1), rest)"
  using assms by (simp add: unpack_int_def marker_defs getbits0 Let_def push8_or_byte)

lemma unpack_neg_1byte:
  assumes "0x40 \<le> uint m" "uint m < 0x80"
  shows "unpack_int (m # rest) = Inr (- (2 ^ 6) + uint m mod 64, rest)"
  using assms by (simp add: unpack_int_def marker_defs getbits0 Let_def)

lemma unpack_pos_1byte:
  assumes "0x80 \<le> uint m" "uint m < 0xc0"
  shows "unpack_int (m # rest) = Inr (uint m mod 64, rest)"
  using assms by (simp add: unpack_int_def marker_defs getbits0 Let_def)

lemma unpack_pos_2byte:
  assumes "0xc0 \<le> uint m" "uint m < 0xe0"
  shows "unpack_int (m # b1 # rest) = Inr (2 ^ 6 + (uint m mod 32 * 256 + uint b1), rest)"
  using assms by (simp add: unpack_int_def marker_defs getbits0 Let_def push8_or_byte)

lemma unpack_pos_multi:
  assumes "0xe0 \<le> uint m" "uint m < 0xf0" "int (length bs) = uint m mod 16"
  shows "unpack_int (m # bs @ rest) = Inr (2 ^ 13 + 2 ^ 6 + be_value bs, rest)"
proof -
  have sz: "nat (uint m mod 16) = length bs" using assms(3) by simp
  show ?thesis using assms(1,2)
    by (simp add: unpack_int_def marker_defs getbits0 Let_def sz get_int_be)
qed

lemma ones_bits:
  assumes "8 * length bs \<le> n"
  shows "bit (be_value bs - 2 ^ (8 * length bs)) n"
proof -
  have "bit (NOT (mask (8 * length bs)) OR be_value bs) n"
    using assms by (simp add: bit_or_iff bit_not_iff bit_mask_iff)
  then show ?thesis by (simp add: ones_or_be)
qed

lemma split_rest:
  assumes "k \<le> int (length rest)" "0 \<le> k"
  shows "\<exists>bs rest'. rest = bs @ rest' \<and> int (length bs) = k"
proof -
  have "rest = take (nat k) rest @ drop (nat k) rest" by simp
  moreover have "int (length (take (nat k) rest)) = k" using assms by simp
  ultimately show ?thesis by blast
qed

lemma unpack_succeeds:
  assumes "0x10 \<le> uint m" "uint m < 0xf0" "\<not> (0x19 \<le> uint m \<and> uint m < 0x20)"
    and "following_bytes (uint m) \<le> int (length rest)"
  shows "\<exists>v r. unpack_int (m # rest) = Inr (v, r)"
proof -
  consider (nm) "uint m \<le> 0x18" | (n2) "0x20 \<le> uint m" "uint m < 0x40"
    | (n1) "0x40 \<le> uint m" "uint m < 0x80" | (p1) "0x80 \<le> uint m" "uint m < 0xc0"
    | (p2) "0xc0 \<le> uint m" "uint m < 0xe0" | (pm) "0xe0 \<le> uint m"
    using assms(3) by linarith
  then show ?thesis
  proof cases
    case nm
    have k: "8 - uint m mod 16 \<le> int (length rest)" "0 \<le> 8 - uint m mod 16"
      using assms(1,4) nm by (simp_all add: following_bytes_def) presburger
    from split_rest [OF k] obtain bs rest' where
      "rest = bs @ rest'" "int (length bs) = 8 - uint m mod 16" by blast
    then show ?thesis using unpack_neg_multi [OF assms(1) nm, of bs rest'] by blast
  next
    case n2
    then have "1 \<le> length rest" using assms(4) by (simp add: following_bytes_def)
    then obtain b1 rest' where "rest = b1 # rest'" by (cases rest) auto
    then show ?thesis using unpack_neg_2byte [OF n2, of b1 rest'] by blast
  next
    case n1 then show ?thesis using unpack_neg_1byte [OF n1, of rest] by blast
  next
    case p1 then show ?thesis using unpack_pos_1byte [OF p1, of rest] by blast
  next
    case p2
    then have "1 \<le> length rest" using assms(4) by (simp add: following_bytes_def)
    then obtain b1 rest' where "rest = b1 # rest'" by (cases rest) auto
    then show ?thesis using unpack_pos_2byte [OF p2, of b1 rest'] by blast
  next
    case pm
    have k: "uint m mod 16 \<le> int (length rest)" "0 \<le> uint m mod 16"
      using assms(2,4) pm by (simp_all add: following_bytes_def)
    from split_rest [OF k] obtain bs rest' where
      "rest = bs @ rest'" "int (length bs) = uint m mod 16" by blast
    then show ?thesis using unpack_pos_multi [OF pm assms(2), of bs rest'] by blast
  qed
qed

lemma get_int_not_value_error: "get_int b n \<noteq> Inl ValueError"
proof (cases "n \<le> length b")
  case True then show ?thesis by (simp add: get_int_def get_int_from_foldl)
next
  case False then show ?thesis by (simp add: get_int_def get_int_from_short)
qed

lemma unpack_value_error_only:
  assumes "unpack_int (m # rest) = Inl ValueError"
  shows "uint m < 0x10 \<or> (0x19 \<le> uint m \<and> uint m < 0x20) \<or> 0xf0 \<le> uint m"
proof (rule ccontr)
  assume n: "\<not> ?thesis"
  then have r: "0x10 \<le> uint m" "uint m < 0xf0" "uint m < 0x19 \<or> 0x20 \<le> uint m"
    by auto
  have sz: "uint m < 0x20 \<Longrightarrow> \<not> 8 - uint m mod 16 < 0" using r by presburger
  show False using assms r sz get_int_not_value_error
    by (auto simp add: unpack_int_def marker_defs getbits0 Let_def
        split: list.splits sum.splits if_splits)
qed

text \<open>
  Claim C2 (amended).  \<open>unpack_int\<close> raises \<open>ValueError\<close> exactly when the marker is
  in one of the free ranges \<open>0x00-0x0F\<close> and \<open>0xF0-0xFF\<close>, or in \<open>0x19-0x1F\<close>, where
  the byte count \<open>8 - l\<close> would be negative.  For every other marker, followed by at
  least the number of bytes the table asks for, it returns a value.
\<close>

theorem unpack_int_value_error_iff:
  "(unpack_int (m # rest) = Inl ValueError \<longleftrightarrow>
      uint m < 0x10 \<or> (0x19 \<le> uint m \<and> uint m < 0x20) \<or> 0xf0 \<le> uint m)
   \<and> (0x10 \<le> uint m \<and> uint m < 0xf0 \<and> \<not> (0x19 \<le> uint m \<and> uint m < 0x20)
        \<and> following_bytes (uint m) \<le> int (length rest)
      \<longrightarrow> (\<exists>v r. unpack_int (m # rest) = Inr (v, r)))"
proof (intro conjI impI iffI)
  assume "unpack_int (m # rest) = Inl ValueError"
  then show "uint m < 0x10 \<or> (0x19 \<le> uint m \<and> uint m < 0x20) \<or> 0xf0 \<le> uint m"
    by (rule unpack_value_error_only)
next
  assume "uint m < 0x10 \<or> (0x19 \<le> uint m \<and> uint m < 0x20) \<or> 0xf0 \<le> uint m"
  then show "unpack_int (m # rest) = Inl ValueError"
    using unpack_reserved [of m rest] unpack_neg_invalid [of m rest] by blast
next
  assume "0x10 \<le> uint m \<and> uint m < 0xf0 \<and> \<not> (0x19 \<le> uint m \<and> uint m < 0x20)
        \<and> following_bytes (uint m) \<le> int (length rest)"
  then show "\<exists>v r. unpack_int (m # rest) = Inr (v, r)"
    using unpack_succeeds [of m rest] by blast
qed

theorem unpack_int_value_error_iff_witness:
  "unpack_int [0x1c] = Inl ValueError \<and> (\<exists>v r. unpack_int [0xe1, 0x05] = Inr (v, r))"
proof -
  have a: "uint (0x1c :: byte) < 0x10 \<or> (0x19 \<le> uint (0x1c :: byte) \<and> uint (0x1c :: byte) < 0x20)
      \<or> 0xf0 \<le> uint (0x1c :: byte)" by simp
  have b: "0x10 \<le> uint (0xe1 :: byte) \<and> uint (0xe1 :: byte) < 0xf0
      \<and> \<not> (0x19 \<le> uint (0xe1 :: byte) \<and> uint (0xe1 :: byte) < 0x20)
      \<and> following_bytes (uint (0xe1 :: byte)) \<le> int (length [0x05 :: byte])"
    by (simp add: following_bytes_def)
  from a unpack_int_value_error_iff [of "0x1c" "[]"] have "unpack_int [0x1c] = Inl ValueError" by blast
  moreover from b unpack_int_value_error_iff [of "0xe1" "[0x05]"]
  have "\<exists>v r. unpack_int [0xe1, 0x05] = Inr (v, r)" by blast
  ultimately show ?thesis by blast
qed

text \<open>
  The claim as written fails at the marker \<open>0x1F\<close>: it lies in \<open>0x10-0xEF\<close>, and the
  decoder raises.
\<close>

theorem unpack_int_value_error_counterexample:
  "0x10 \<le> uint (0x1f :: byte) \<and> uint (0x1f :: byte) \<le> 0xef \<and> unpack_int [0x1f] = Inl ValueError"
  by (simp add: unpack_neg_invalid)

text \<open>
  Claim C1 (amended).  The value \<open>unpack_int\<close> returns, range by range: the one-byte
  forms, the two-byte forms with their 13-bit value, the positive multi-byte form with
  the big-endian value of \<open>l\<close> bytes, and the negative multi-byte form for the markers
  \<open>0x10-0x18\<close>, whose value is that of \<open>8 - l\<close> bytes with every higher bit set.  The
  last seven conjuncts are the boundary values of the table.
\<close>

theorem unpack_int_marker_table:
  "(0x40 \<le> uint m \<and> uint m < 0x80 \<longrightarrow>
      unpack_int (m # rest) = Inr (- (2 ^ 6) + uint m mod 2 ^ 6, rest))
   \<and> (0x80 \<le> uint m \<and> uint m < 0xc0 \<longrightarrow>
      unpack_int (m # rest) = Inr (uint m mod 2 ^ 6, rest))
   \<and> (0x20 \<le> uint m \<and> uint m < 0x40 \<longrightarrow>
      unpack_int (m # b1 # rest) =
        Inr ((- (2 ^ 13) - 2 ^ 6) + (uint m mod 2 ^ 5 * 2 ^ 8 + uint b1), rest))
   \<and> (0xc0 \<le> uint m \<and> uint m < 0xe0 \<longrightarrow>
      unpack_int (m # b1 # rest) = Inr (2 ^ 6 + (uint m mod 2 ^ 5 * 2 ^ 8 + uint b1), rest))
   \<and> (0xe0 \<le> uint m \<and> uint m < 0xf0 \<and> int (length bs) = uint m mod 16 \<longrightarrow>
      unpack_int (m # bs @ rest) = Inr ((2 ^ 13 + 2 ^ 6) + be_value bs, rest))
   \<and> (0x10 \<le> uint m \<and> uint m \<le> 0x18 \<and> int (length bs) = 8 - uint m mod 16 \<longrightarrow>
      unpack_int (m # bs @ rest) = Inr (be_value bs - 2 ^ (8 * length bs), rest)
      \<and> (\<forall>n \<ge> 8 * length bs. bit (be_value bs - 2 ^ (8 * length bs)) n))
   \<and> unpack_int [0x40] = Inr (- (2 ^ 6), [])
   \<and> unpack_int [0x7f] = Inr (- 1, [])
   \<and> unpack_int [0x80] = Inr (0, [])
   \<and> unpack_int [0xbf] = Inr (2 ^ 6 - 1, [])
   \<and> unpack_int [0xc0, 0x00] = Inr (2 ^ 6, [])
   \<and> unpack_int [0xdf, 0xff] = Inr (2 ^ 13 + 2 ^ 6 - 1, [])
   \<and> unpack_int [0xe0] = Inr (2 ^ 13 + 2 ^ 6, [])"
proof (intro conjI impI allI)
  assume "0x40 \<le> uint m \<and> uint m < 0x80"
  then show "unpack_int (m # rest) = Inr (- (2 ^ 6) + uint m mod 2 ^ 6, rest)"
    using unpack_neg_1byte [of m rest] by simp
next
  assume "0x80 \<le> uint m \<and> uint m < 0xc0"
  then show "unpack_int (m # rest) = Inr (uint m mod 2 ^ 6, rest)"
    using unpack_pos_1byte [of m rest] by simp
next
  assume "0x20 \<le> uint m \<and> uint m < 0x40"
  then show "unpack_int (m # b1 # rest) =
      Inr ((- (2 ^ 13) - 2 ^ 6) + (uint m mod 2 ^ 5 * 2 ^ 8 + uint b1), rest)"
    using unpack_neg_2byte [of m b1 rest] by simp
next
  assume "0xc0 \<le> uint m \<and> uint m < 0xe0"
  then show "unpack_int (m # b1 # rest) =
      Inr (2 ^ 6 + (uint m mod 2 ^ 5 * 2 ^ 8 + uint b1), rest)"
    using unpack_pos_2byte [of m b1 rest] by simp
next
  assume "0xe0 \<le> uint m \<and> uint m < 0xf0 \<and> int (length bs) = uint m mod 16"
  then show "unpack_int (m # bs @ rest) = Inr ((2 ^ 13 + 2 ^ 6) + be_value bs, rest)"
    using unpack_pos_multi [of m bs rest] by simp
next
  assume "0x10 \<le> uint m \<and> uint m \<le> 0x18 \<and> int (length bs) = 8 - uint m mod 16"
  then show "unpack_int (m # bs @ rest) = Inr (be_value bs - 2 ^ (8 * length bs), rest)"
    using unpack_neg_multi [of m bs rest] by simp
next
  fix n assume "8 * length bs \<le> n"
  then show "bit (be_value bs - 2 ^ (8 * length bs)) n" by (rule ones_bits)
next
  show "unpack_int [0x40] = Inr (- (2 ^ 6), [])"
    using unpack_neg_1byte [of "0x40" "[]"] by simp
  show "unpack_int [0x7f] = Inr (- 1, [])"
    using unpack_neg_1byte [of "0x7f" "[]"] by simp
  show "unpack_int [0x80] = Inr (0, [])"
    using unpack_pos_1byte [of "0x80" "[]"] by simp
  show "unpack_int [0xbf] = Inr (2 ^ 6 - 1, [])"
    using unpack_pos_1byte [of "0xbf" "[]"] by simp
  show "unpack_int [0xc0, 0x00] = Inr (2 ^ 6, [])"
    using unpack_pos_2byte [of "0xc0" "0x00" "[]"] by simp
  show "unpack_int [0xdf, 0xff] = Inr (2 ^ 13 + 2 ^ 6 - 1, [])"
    using unpack_pos_2byte [of "0xdf" "0xff" "[]"] by simp
  show "unpack_int [0xe0] = Inr (2 ^ 13 + 2 ^ 6, [])"
    using unpack_pos_multi [of "0xe0" "[]" "[]"] by (simp add: be_value_def)
qed

theorem unpack_int_marker_table_witness:
  "unpack_int [0x41, 0x99] = Inr (- 63, [0x99])
   \<and> unpack_int [0x85] = Inr (5, [])
   \<and> unpack_int [0x21, 0x02] = Inr (- 7998, [])
   \<and> unpack_int [0xc1, 0x02] = Inr (322, [])
   \<and> unpack_int [0xe2, 0x01, 0x02, 0x07] = Inr (8514, [0x07])
   \<and> unpack_int [0x17, 0xfe] = Inr (- 2, [])"
proof -
  note t = unpack_int_marker_table
  have "unpack_int [0x41, 0x99] = Inr (- (2 ^ 6) + uint (0x41 :: byte) mod 2 ^ 6, [0x99])"
    using t [where m = "0x41" and rest = "[0x99]"] by simp
  moreover have "unpack_int [0x85] = Inr (uint (0x85 :: byte) mod 2 ^ 6, [])"
    using t [where m = "0x85" and rest = "[]"] by simp
  moreover have "unpack_int [0x21, 0x02] =
      Inr ((- (2 ^ 13) - 2 ^ 6) + (uint (0x21 :: byte) mod 2 ^ 5 * 2 ^ 8 + uint (0x02 :: byte)), [])"
    using t [where m = "0x21" and ?b1.0 = "0x02" and rest = "[]"] by simp
  moreover have "unpack_int [0xc1, 0x02] =
      Inr (2 ^ 6 + (uint (0xc1 :: byte) mod 2 ^ 5 * 2 ^ 8 + uint (0x02 :: byte)), [])"
    using t [where m = "0xc1" and ?b1.0 = "0x02" and rest = "[]"] by simp
  moreover have "unpack_int ([0xe2] @ [0x01, 0x02] @ [0x07]) =
      Inr ((2 ^ 13 + 2 ^ 6) + be_value [0x01, 0x02], [0x07])"
    using t [where m = "0xe2" and bs = "[0x01, 0x02]" and rest = "[0x07]"] by simp
  moreover have "unpack_int ([0x17] @ [0xfe] @ []) =
      Inr (be_value [0xfe] - 2 ^ (8 * length [0xfe :: byte]), [])"
    using t [where m = "0x17" and bs = "[0xfe]" and rest = "[]"] by simp
  ultimately show ?thesis by (simp add: be_value_def)
qed

text \<open>
  The claim as written covers every marker of \<open>0x10-0x1F\<close>; the marker \<open>0x19\<close> has
  \<open>l = 9\<close>, and the decoder raises instead of returning a value.
\<close>

theorem unpack_int_marker_table_counterexample:
  "0x10 \<le> uint (0x19 :: byte) \<and> uint (0x19 :: byte) \<le> 0xef
   \<and> unpack_int [0x19] = Inl ValueError"
  by (simp add: unpack_neg_invalid)


section \<open>Properties of the cell decoder\<close>

lemmas dec_defs = bnd_def ret_def seq_def on_b_def on_b_total_def emit_def rint_def
  rint_v_def upd_stats_def

lemma bnd_OkE:
  assumes "bnd m f st = (Ok y, st')"
  obtains x st1 where "m st = (Ok x, st1)" "f x st1 = (Ok y, st')"
  using assms by (auto simp add: bnd_def split: prod.splits result.splits)

lemma unpack_int_drop:
  assumes "unpack_int a = Inr (v, r)"
  shows "r = drop (length a - length r) a"
proof (cases a)
  case Nil
  then show ?thesis using assms by (simp add: unpack_int_def)
next
  case (Cons m rest)
  have g: "\<And>n x. get_int rest n = Inr x \<Longrightarrow> n \<le> length rest"
    using get_int_from_short [of rest] by (fastforce simp add: get_int_def not_less [symmetric])
  show ?thesis using assms Cons
    by (auto simp add: unpack_int_def Let_def dest: g split: if_splits sum.splits list.splits)
qed

lemma unpack_uint64_with_sz_Ok:
  assumes "unpack_uint64_with_sz s = (Ok (v, sz), s')"
  shows "\<exists>r. unpack_int (avail s) = Inr (v, r) \<and> avail s' = r \<and> sdata s' = sdata s
     \<and> sz = int (length (avail s)) - int (length r) \<and> spos s' = spos s + nat sz"
proof -
  from assms obtain r where r: "unpack_int (avail s) = Inr (v, r)"
    and s': "s' = s\<lparr>spos := spos s + (length (avail s) - length r)\<rparr>"
    and sz: "sz = int (length (avail s) - length r)"
    by (auto simp add: unpack_uint64_with_sz_def avail_def Let_def split: sum.splits)
  have lt: "length r < length (avail s)" using r by (rule unpack_int_shorter)
  have "avail s' = drop (length (avail s) - length r) (avail s)"
    by (simp add: s' avail_def add.commute)
  also have "\<dots> = r" using unpack_int_drop [OF r] by simp
  finally show ?thesis using r s' sz lt by auto
qed

lemma unpack_uint64_Ok:
  assumes "unpack_uint64 s = (Ok v, s')"
  shows "\<exists>r. unpack_int (avail s) = Inr (v, r) \<and> avail s' = r \<and> sdata s' = sdata s"
  using assms unpack_uint64_with_sz_Ok [of s v _ s']
  by (auto simp add: unpack_uint64_def split: prod.splits result.splits)

lemma read_Ok:
  assumes "read l s = (Ok x, s')"
  shows "0 \<le> l \<and> x = take (nat l) (avail s) \<and> avail s' = drop (nat l) (avail s)
     \<and> sdata s' = sdata s \<and> spos s' = spos s + length x"
  using assms
  by (auto simp add: read_def read_bytes_def avail_def Let_def min_def drop_take add.commute
      split: if_splits)

lemma on_b_unpack_Ok:
  assumes "on_b unpack_uint64 st = (Ok v, st')"
  shows "\<exists>r. unpack_int (avail (bstream st)) = Inr (v, r) \<and> avail (bstream st') = r
     \<and> pagestats st' = pagestats st \<and> out st' = out st"
  using assms unpack_uint64_Ok [of "bstream st" v]
  by (auto simp add: on_b_def split: prod.splits)

lemma long_length_Ok:
  assumes "long_length st = (Ok l, st')"
  shows "\<exists>v r. unpack_int (avail (bstream st)) = Inr (v, r) \<and> l = v + 64
     \<and> avail (bstream st') = r \<and> pagestats st' = pagestats st"
proof -
  from assms obtain v st1 where a: "on_b unpack_uint64 st = (Ok v, st1)"
    and b: "(let l = v + 64 in
        seq (if l < 0 then rint (''? unexpected negative length: {}'', [l]) else ret ())
            (ret l)) st1 = (Ok l, st')"
    unfolding long_length_def by (erule bnd_OkE)
  from b have "l = v + 64" "bstream st' = bstream st1" "pagestats st' = pagestats st1"
    by (auto simp add: dec_defs Let_def split: if_splits)
  then show ?thesis using on_b_unpack_Ok [OF a] by auto
qed

lemma on_b_read_Ok:
  assumes "on_b (read l) st = (Ok x, st')"
  shows "0 \<le> l \<and> x = take (nat l) (avail (bstream st))
     \<and> avail (bstream st') = drop (nat l) (avail (bstream st))
     \<and> pagestats st' = pagestats st \<and> out st' = out st"
  using assms read_Ok [of l "bstream st" x]
  by (auto simp add: on_b_def split: prod.splits)

lemma celltype_names:
  "celltype_string 3 = ''WT_CELL_ADDR_LEAF_NO''" "celltype_string 5 = ''WT_CELL_KEY''"
  "celltype_string 6 = ''WT_CELL_KEY_OVFL''" "celltype_string 7 = ''WT_CELL_KEY_PFX''"
  "celltype_string 8 = ''WT_CELL_VALUE''" "celltype_string 10 = ''WT_CELL_VALUE_OVFL''"
  by (simp_all add: celltype_string_def)


lemma typed_key:
  assumes "drop_bit 4 (desc AND 0xf0) = 5"
    and "cell_typed desc extra ds st = (Ok (c, ds'), st')"
  shows "\<exists>v r. unpack_int (avail (bstream st)) = Inr (v, r) \<and> 0 \<le> v + 64
     \<and> c = Some ((''key {} bytes'', [v + 64]), take (nat (v + 64)) r)
     \<and> pagestats st' = add_key (v + 64) (pagestats st)"
proof -
  from assms have "bnd long_length (\<lambda>l. bnd (on_b (read l)) (\<lambda>x.
      seq (upd_stats (add_key l)) (ret (Some ((''key {} bytes'', [l]), x), ds)))) st
      = (Ok (c, ds'), st')"
    by (simp add: cell_typed_def celltype_names Let_def)
  then obtain l st1 x st2 where l: "long_length st = (Ok l, st1)"
    and x: "on_b (read l) st1 = (Ok x, st2)"
    and r: "(seq (upd_stats (add_key l)) (ret (Some ((''key {} bytes'', [l]), x), ds))) st2
        = (Ok (c, ds'), st')"
    by (elim bnd_OkE)
  from r have "c = Some ((''key {} bytes'', [l]), x)" "pagestats st' = add_key l (pagestats st2)"
    by (auto simp add: dec_defs)
  then show ?thesis using long_length_Ok [OF l] on_b_read_Ok [OF x] by auto
qed

lemma typed_addr_leaf_no:
  assumes "drop_bit 4 (desc AND 0xf0) = 3"
    and "cell_typed desc extra ds st = (Ok (c, ds'), st')"
  shows "\<exists>v r. unpack_int (avail (bstream st)) = Inr (v, r) \<and> 0 \<le> v + 64
     \<and> c = Some ((''addr (leaf no-overflow) {} bytes'', [v + 64]), take (nat (v + 64)) r)
     \<and> pagestats st' = add_key (v + 64) (pagestats st)"
proof -
  from assms have "bnd long_length (\<lambda>l. bnd (on_b (read l)) (\<lambda>x.
      seq (upd_stats (add_key l)) (ret (Some ((''addr (leaf no-overflow) {} bytes'', [l]), x), ds)))) st
      = (Ok (c, ds'), st')"
    by (simp add: cell_typed_def celltype_names Let_def)
  then obtain l st1 x st2 where l: "long_length st = (Ok l, st1)"
    and x: "on_b (read l) st1 = (Ok x, st2)"
    and r: "(seq (upd_stats (add_key l)) (ret (Some ((''addr (leaf no-overflow) {} bytes'', [l]), x), ds))) st2
        = (Ok (c, ds'), st')"
    by (elim bnd_OkE)
  from r have "c = Some ((''addr (leaf no-overflow) {} bytes'', [l]), x)" "pagestats st' = add_key l (pagestats st2)"
    by (auto simp add: dec_defs)
  then show ?thesis using long_length_Ok [OF l] on_b_read_Ok [OF x] by auto
qed

lemma typed_key_ovfl:
  assumes "drop_bit 4 (desc AND 0xf0) = 6"
    and "cell_typed desc extra ds st = (Ok (c, ds'), st')"
  shows "\<exists>v r. unpack_int (avail (bstream st)) = Inr (v, r) \<and> 0 \<le> v
     \<and> c = Some ((''overflow key {} bytes'', [v]), take (nat (v)) r)
     \<and> pagestats st' = add_key (v) (pagestats st)"
proof -
  from assms have "bnd (on_b unpack_uint64) (\<lambda>l. bnd (on_b (read l)) (\<lambda>x.
      seq (upd_stats (add_key l)) (ret (Some ((''overflow key {} bytes'', [l]), x), ds)))) st
      = (Ok (c, ds'), st')"
    by (simp add: cell_typed_def celltype_names Let_def)
  then obtain l st1 x st2 where l: "(on_b unpack_uint64) st = (Ok l, st1)"
    and x: "on_b (read l) st1 = (Ok x, st2)"
    and r: "(seq (upd_stats (add_key l)) (ret (Some ((''overflow key {} bytes'', [l]), x), ds))) st2
        = (Ok (c, ds'), st')"
    by (elim bnd_OkE)
  from r have "c = Some ((''overflow key {} bytes'', [l]), x)" "pagestats st' = add_key l (pagestats st2)"
    by (auto simp add: dec_defs)
  then show ?thesis using on_b_unpack_Ok [OF l] on_b_read_Ok [OF x] by auto
qed


lemma on_b_uint8_Ok:
  assumes "on_b_total uint8 st = (r, st')"
  shows "r = Ok (from_bytes_little (take 1 (avail (bstream st))))
     \<and> avail (bstream st') = drop 1 (avail (bstream st))
     \<and> pagestats st' = pagestats st \<and> out st' = out st"
  using assms
  by (auto simp add: on_b_total_def uint8_def uint_n_def read_bytes_def avail_def Let_def
      min_def drop_take add.commute split: prod.splits if_splits)

lemma typed_key_pfx:
  assumes "drop_bit 4 (desc AND 0xf0) = 7"
    and "cell_typed desc extra ds st = (Ok (c, ds'), st')"
  shows "\<exists>v r. unpack_int (drop 1 (avail (bstream st))) = Inr (v, r) \<and> 0 \<le> v + 64
     \<and> c = Some ((''key prefix={} {} bytes'',
            [from_bytes_little (take 1 (avail (bstream st))), v + 64]), take (nat (v + 64)) r)
     \<and> pagestats st' = add_key (v + 64) (pagestats st)"
proof -
  from assms have "bnd (on_b_total uint8) (\<lambda>prefix. bnd long_length (\<lambda>l.
      bnd (on_b (read l)) (\<lambda>x. seq (upd_stats (add_key l))
        (ret (Some ((''key prefix={} {} bytes'', [prefix, l]), x), ds))))) st
      = (Ok (c, ds'), st')"
    by (simp add: cell_typed_def celltype_names Let_def)
  then obtain prefix st0 l st1 x st2 where p: "on_b_total uint8 st = (Ok prefix, st0)"
    and l: "long_length st0 = (Ok l, st1)"
    and x: "on_b (read l) st1 = (Ok x, st2)"
    and r: "(seq (upd_stats (add_key l))
        (ret (Some ((''key prefix={} {} bytes'', [prefix, l]), x), ds))) st2
        = (Ok (c, ds'), st')"
    by (elim bnd_OkE)
  from r have "c = Some ((''key prefix={} {} bytes'', [prefix, l]), x)"
    "pagestats st' = add_key l (pagestats st2)"
    by (auto simp add: dec_defs)
  then show ?thesis
    using on_b_uint8_Ok [OF p] long_length_Ok [OF l] on_b_read_Ok [OF x] by auto
qed

lemma typed_value:
  assumes "drop_bit 4 (desc AND 0xf0) = 8"
    and "cell_typed desc extra ds st = (Ok (c, ds'), st')"
  shows "\<exists>v r. unpack_int (avail (bstream st)) = Inr (v, r)
     \<and> c = (if extra \<noteq> 0 then Some ((''val {} bytes'', [v]), take (nat v) r)
            else Some ((''val {} bytes'', [v + 64]), take (nat (v + 64)) r))
     \<and> 0 \<le> (if extra \<noteq> 0 then v else v + 64)
     \<and> pagestats st' = pagestats st"
proof -
  from assms have "bnd (if extra \<noteq> 0 then on_b unpack_uint64 else long_length)
      (\<lambda>l. bnd (on_b (read l)) (\<lambda>x. ret (Some ((''val {} bytes'', [l]), x), ds))) st
      = (Ok (c, ds'), st')"
    by (simp add: cell_typed_def celltype_names Let_def)
  then obtain l st1 x st2 where
    l: "(if extra \<noteq> 0 then on_b unpack_uint64 else long_length) st = (Ok l, st1)"
    and x: "on_b (read l) st1 = (Ok x, st2)"
    and r: "ret (Some ((''val {} bytes'', [l]), x), ds) st2 = (Ok (c, ds'), st')"
    by (elim bnd_OkE)
  from r have c: "c = Some ((''val {} bytes'', [l]), x)" "pagestats st' = pagestats st2"
    by (auto simp add: dec_defs)
  show ?thesis
  proof (cases "extra \<noteq> 0")
    case True
    with l have "on_b unpack_uint64 st = (Ok l, st1)" by simp
    from on_b_unpack_Ok [OF this] on_b_read_Ok [OF x] c True show ?thesis by auto
  next
    case False
    with l have "long_length st = (Ok l, st1)" by simp
    from long_length_Ok [OF this] on_b_read_Ok [OF x] c False show ?thesis by auto
  qed
qed

definition key_stats :: "dstate \<Rightarrow> int \<times> int" where
  "key_stats st = (num_keys (pagestats st), keys_sz (pagestats st))"

definition keeps :: "'a dec \<Rightarrow> bool" where
  "keeps m \<longleftrightarrow> (\<forall>st r st'. m st = (r, st') \<longrightarrow> key_stats st' = key_stats st)"

lemma keepsD: "keeps m \<Longrightarrow> m st = (r, st') \<Longrightarrow> key_stats st' = key_stats st"
  by (auto simp add: keeps_def)

lemma keeps_ret [intro!, simp]: "keeps (ret x)"
  by (simp add: keeps_def ret_def)

lemma keeps_bnd [intro!]: "keeps m \<Longrightarrow> (\<And>x. keeps (f x)) \<Longrightarrow> keeps (bnd m f)"
  unfolding keeps_def bnd_def
  by (auto split: prod.splits result.splits)

lemma keeps_seq [intro!]: "keeps m \<Longrightarrow> keeps k \<Longrightarrow> keeps (seq m k)"
  by (auto simp add: seq_def)

lemma keeps_emit [intro!, simp]: "keeps (emit e)" "keeps (rint s)" "keeps (rint_v s)"
  by (simp_all add: keeps_def emit_def rint_def rint_v_def key_stats_def)

lemma keeps_on_b [intro!, simp]: "keeps (on_b f)" "keeps (on_b_total g)"
  by (auto simp add: keeps_def on_b_def on_b_total_def key_stats_def split: prod.splits)

lemma keeps_if [intro!]: "keeps m \<Longrightarrow> keeps k \<Longrightarrow> keeps (if c then m else k)"
  by simp

lemma keeps_upd:
  "(\<And>p. num_keys (f p) = num_keys p \<and> keys_sz (f p) = keys_sz p) \<Longrightarrow> keeps (upd_stats f)"
  by (simp add: keeps_def upd_stats_def key_stats_def)

lemma keeps_ts_field:
  "(\<And>sz p. num_keys (upd sz p) = num_keys p \<and> keys_sz (upd sz p) = keys_sz p)
    \<Longrightarrow> keeps (ts_field extra flag upd label)"
  unfolding ts_field_def by (auto intro!: keeps_upd simp add: split_def)

lemma keeps_process_timestamps: "keeps (process_timestamps extra)"
  unfolding process_timestamps_def by (intro keeps_if keeps_seq keeps_ts_field) simp_all

lemma keeps_cell_extra: "keeps (cell_extra desc ds)"
  unfolding cell_extra_def by (intro keeps_if keeps_seq keeps_bnd keeps_process_timestamps) simp_all

lemma keeps_cell_runlength: "keeps (cell_runlength desc ds)"
  unfolding cell_runlength_def by (intro keeps_if keeps_seq keeps_bnd) simp_all

lemma keeps_dumpraw: "keeps (dumpraw pos)"
  by (simp add: keeps_def dumpraw_def key_stats_def Let_def split: prod.splits)

lemma keeps_cell_print: "keeps (cell_print cellpos c)"
  unfolding cell_print_def
  by (auto intro!: keeps_dumpraw split: prod.splits option.splits sum.splits)

lemma on_b_read1_Ok:
  assumes "on_b read1 st = (Ok e, st')"
  shows "\<exists>x xs. avail (bstream st) = x # xs \<and> e = uint x \<and> avail (bstream st') = xs
     \<and> pagestats st' = pagestats st \<and> out st' = out st"
proof (cases "avail (bstream st)")
  case Nil
  then show ?thesis using assms
    by (auto simp add: on_b_def read1_def read_bytes_def avail_def Let_def)
next
  case (Cons x xs)
  then have "drop (Suc (spos (bstream st))) (sdata (bstream st)) = xs"
    by (metis avail_def drop_Suc drop_drop list.sel(3) plus_1_eq_Suc tl_drop)
  moreover have "spos (bstream st) < length (sdata (bstream st))"
    using Cons by (cases "spos (bstream st) < length (sdata (bstream st))")
      (simp_all add: avail_def)
  ultimately show ?thesis using assms Cons
    by (auto simp add: on_b_def read1_def read_bytes_def avail_def Let_def min_def)
qed

lemma cell_extra_Ok:
  assumes "cell_extra desc ds st = (Ok (extra, ds1), st1)"
  shows "extra = (if desc AND 0x8 \<noteq> 0 then uint (hd (avail (bstream st))) else 0)"
proof (cases "desc AND 0x8 \<noteq> 0")
  case False
  then show ?thesis using assms by (simp add: cell_extra_def ret_def)
next
  case True
  with assms obtain e st0 where e: "on_b read1 st = (Ok e, st0)"
    and r: "seq (rint_v (fcat ds (''extra: 0x{}'', [e])))
       (seq (process_timestamps e) (ret (e, lit ''''))) st0 = (Ok (extra, ds1), st1)"
    unfolding cell_extra_def by (auto elim: bnd_OkE)
  from r have "extra = e"
    by (auto simp add: seq_def ret_def elim!: bnd_OkE)
  moreover from on_b_read1_Ok [OF e] have "e = uint (hd (avail (bstream st)))"
    by auto
  ultimately show ?thesis using True by simp
qed

lemma cell_long_OkE:
  assumes "cell_long desc ds0 st = (Ok (c, ds), st')"
  obtains extra ds1 st1 ds2 st2 where
    "cell_extra desc ds0 st = (Ok (extra, ds1), st1)"
    "cell_runlength desc ds1 st1 = (Ok ds2, st2)"
    "cell_typed desc extra ds2 st2 = (Ok (c, ds), st')"
proof -
  from assms obtain eds st1 where a: "cell_extra desc ds0 st = (Ok eds, st1)"
    and b: "(case eds of (extra, ds1) \<Rightarrow>
        bnd (cell_runlength desc ds1) (\<lambda>desc_str. cell_typed desc extra desc_str)) st1
        = (Ok (c, ds), st')"
    unfolding cell_long_def by (erule bnd_OkE)
  obtain extra ds1 where eds: "eds = (extra, ds1)" by (cases eds)
  from b eds obtain ds2 st2 where "cell_runlength desc ds1 st1 = (Ok ds2, st2)"
    "cell_typed desc extra ds2 st2 = (Ok (c, ds), st')"
    by (auto elim: bnd_OkE)
  with a eds show ?thesis using that by blast
qed



text \<open>
  Claim C10.  For a long-form value cell (type 8) the extra descriptor byte decides the
  encoding of the length: with a nonzero extra byte (descriptor bit \<open>0x8\<close> set and the byte
  read not 0) the data length is the packed integer itself, otherwise it is the packed
  integer plus 64.
\<close>

theorem value_cell_length_encoding:
  assumes "cell_long desc ds0 st = (Ok (c, ds), st')"
    and "drop_bit 4 (desc AND 0xf0) = 8"
  shows "\<exists>extra ds1 st1 ds2 st2 v r.
    cell_extra desc ds0 st = (Ok (extra, ds1), st1) \<and>
    cell_runlength desc ds1 st1 = (Ok ds2, st2) \<and>
    extra = (if desc AND 0x8 \<noteq> 0 then uint (hd (avail (bstream st))) else 0) \<and>
    unpack_int (avail (bstream st2)) = Inr (v, r) \<and>
    c = (if extra \<noteq> 0 then Some ((''val {} bytes'', [v]), take (nat v) r)
         else Some ((''val {} bytes'', [v + 64]), take (nat (v + 64)) r))"
proof -
  from assms(1) obtain extra ds1 st1 ds2 st2 where
    e: "cell_extra desc ds0 st = (Ok (extra, ds1), st1)"
    and r: "cell_runlength desc ds1 st1 = (Ok ds2, st2)"
    and t: "cell_typed desc extra ds2 st2 = (Ok (c, ds), st')"
    by (rule cell_long_OkE)
  from typed_value [OF assms(2) t] obtain v r where
    "unpack_int (avail (bstream st2)) = Inr (v, r)"
    "c = (if extra \<noteq> 0 then Some ((''val {} bytes'', [v]), take (nat v) r)
         else Some ((''val {} bytes'', [v + 64]), take (nat (v + 64)) r))"
    by blast
  with e r cell_extra_Ok [OF e] show ?thesis by blast
qed

theorem value_cell_length_encoding_witness:
  "(\<exists>v r. unpack_int [0x85, 0x41, 0x42] = Inr (v, r) \<and>
      Some ((''val {} bytes'', [69 :: int]), [0x41 :: byte, 0x42])
        = Some ((''val {} bytes'', [v + 64]), take (nat (v + 64)) r))
   \<and> (\<exists>v r. unpack_int [0x82, 0x41, 0x42] = Inr (v, r) \<and>
      Some ((''val {} bytes'', [2 :: int]), [0x41 :: byte, 0x42])
        = Some ((''val {} bytes'', [v]), take (nat v) r))"
proof -
  let ?a = "\<lparr>bstream = \<lparr>sdata = [0x80, 0x85, 0x41, 0x42], spos = 1\<rparr>,
      pagestats = PageStats0, out = []\<rparr> :: dstate"
  let ?b = "\<lparr>bstream = \<lparr>sdata = [0x88, 0x01, 0x82, 0x41, 0x42], spos = 1\<rparr>,
      pagestats = PageStats0, out = []\<rparr> :: dstate"
  let ?b1 = "\<lparr>bstream = \<lparr>sdata = [0x88, 0x01, 0x82, 0x41, 0x42], spos = 2\<rparr>,
      pagestats = PageStats0,
      out = [Rint_v (''dextra: 0x{}'', [1]), Rint_v (''cell has timestamps:'', []),
             Rint_v ('' prepared'', [])]\<rparr> :: dstate"
  have ct: "drop_bit 4 ((0x80 :: int) AND 0xf0) = 8" "drop_bit 4 ((0x88 :: int) AND 0xf0) = 8"
    by simp_all
  have ha: "cell_long 0x80 (lit ''d'') ?a
    = (Ok (Some ((''val {} bytes'', [69]), [0x41, 0x42]), lit ''d''),
       \<lparr>bstream = \<lparr>sdata = [0x80, 0x85, 0x41, 0x42], spos = 4\<rparr>,
        pagestats = PageStats0, out = []\<rparr>)"
    by code_simp
  have hb: "cell_long 0x88 (lit ''d'') ?b
    = (Ok (Some ((''val {} bytes'', [2]), [0x41, 0x42]), lit ''''),
       \<lparr>bstream = \<lparr>sdata = [0x88, 0x01, 0x82, 0x41, 0x42], spos = 5\<rparr>,
        pagestats = PageStats0,
        out = [Rint_v (''dextra: 0x{}'', [1]), Rint_v (''cell has timestamps:'', []),
               Rint_v ('' prepared'', [])]\<rparr>)"
    by code_simp
  have eb: "cell_extra 0x88 (lit ''d'') ?b = (Ok (1, lit ''''), ?b1)"
    by code_simp
  from value_cell_length_encoding [OF ha ct(1)] obtain extra ds1 st1 ds2 st2 v r where
    e: "cell_extra 0x80 (lit ''d'') ?a = (Ok (extra, ds1), st1)"
    and rl: "cell_runlength 0x80 ds1 st1 = (Ok ds2, st2)"
    and x: "extra = (if (0x80 :: int) AND 0x8 \<noteq> 0 then uint (hd (avail (bstream ?a))) else 0)"
    and u: "unpack_int (avail (bstream st2)) = Inr (v, r)"
    and c: "Some ((''val {} bytes'', [69 :: int]), [0x41 :: byte, 0x42])
      = (if extra \<noteq> 0 then Some ((''val {} bytes'', [v]), take (nat v) r)
         else Some ((''val {} bytes'', [v + 64]), take (nat (v + 64)) r))"
    by blast
  from e have "st1 = ?a" by (simp add: cell_extra_def ret_def)
  with rl have "st2 = ?a" by (simp add: cell_runlength_def ret_def)
  then have av: "avail (bstream st2) = [0x85, 0x41, 0x42]" by (simp add: avail_def)
  from x have x0: "extra = 0" by simp
  have c0: "Some ((''val {} bytes'', [69 :: int]), [0x41 :: byte, 0x42])
      = Some ((''val {} bytes'', [v + 64]), take (nat (v + 64)) r)"
    using c unfolding x0 by simp
  from u av c0 have first: "\<exists>v r. unpack_int [0x85, 0x41, 0x42] = Inr (v, r) \<and>
      Some ((''val {} bytes'', [69 :: int]), [0x41 :: byte, 0x42])
        = Some ((''val {} bytes'', [v + 64]), take (nat (v + 64)) r)"
    by metis
  from value_cell_length_encoding [OF hb ct(2)] obtain extra' ds1' st1' ds2' st2' v' r' where
    e': "cell_extra 0x88 (lit ''d'') ?b = (Ok (extra', ds1'), st1')"
    and rl': "cell_runlength 0x88 ds1' st1' = (Ok ds2', st2')"
    and u': "unpack_int (avail (bstream st2')) = Inr (v', r')"
    and c': "Some ((''val {} bytes'', [2 :: int]), [0x41 :: byte, 0x42])
      = (if extra' \<noteq> 0 then Some ((''val {} bytes'', [v']), take (nat v') r')
         else Some ((''val {} bytes'', [v' + 64]), take (nat (v' + 64)) r'))"
    by blast
  from e' eb have x1: "extra' = 1" and s1: "st1' = ?b1" by simp_all
  from rl' have "st2' = st1'" by (simp add: cell_runlength_def ret_def)
  with s1 have av': "avail (bstream st2') = [0x82, 0x41, 0x42]" by (simp add: avail_def)
  have c1: "Some ((''val {} bytes'', [2 :: int]), [0x41 :: byte, 0x42])
      = Some ((''val {} bytes'', [v']), take (nat v') r')"
    using c' unfolding x1 by simp
  from u' av' c1 have second: "\<exists>v r. unpack_int [0x82, 0x41, 0x42] = Inr (v, r) \<and>
      Some ((''val {} bytes'', [2 :: int]), [0x41 :: byte, 0x42])
        = Some ((''val {} bytes'', [v]), take (nat v) r)"
    by metis
  from first second show ?thesis by (rule conjI)
qed


lemma and3_mod: "(x :: int) AND 3 = x mod 4"
  using take_bit_eq_mask [of 2 x] by (simp add: take_bit_eq_mod mask_eq_exp_minus_1)

lemma drop2_and_fc:
  assumes "0 \<le> x" "x < 256"
  shows "drop_bit 2 ((x :: int) AND 0xfc) = x div 4"
proof -
  have "drop_bit 2 (x AND 0xfc) = drop_bit 2 x AND drop_bit 2 (0xfc :: int)"
    by (simp add: bit_eq_iff bit_simps)
  also have "drop_bit 2 (0xfc :: int) = mask 6" by (simp add: mask_eq_exp_minus_1 drop_bit_eq_div)
  also have "drop_bit 2 x AND mask 6 = (x div 4) mod 64"
    by (simp add: drop_bit_eq_div take_bit_eq_mod flip: take_bit_eq_mask)
  also have "\<dots> = x div 4" using assms by simp
  finally show ?thesis .
qed

lemma drop4_and_f0:
  assumes "0 \<le> x" "x < 256"
  shows "drop_bit 4 ((x :: int) AND 0xf0) = x div 16"
proof -
  have "drop_bit 4 (x AND 0xf0) = drop_bit 4 x AND drop_bit 4 (0xf0 :: int)"
    by (simp add: bit_eq_iff bit_simps)
  also have "drop_bit 4 (0xf0 :: int) = mask 4" by (simp add: mask_eq_exp_minus_1 drop_bit_eq_div)
  also have "drop_bit 4 x AND mask 4 = (x div 16) mod 16"
    by (simp add: drop_bit_eq_div take_bit_eq_mod flip: take_bit_eq_mask)
  also have "\<dots> = x div 16" using assms by simp
  finally show ?thesis .
qed

text \<open>
  The cells the claim counts as keys, by the descriptor byte: the short key forms
  (bottom bits 1 and 2) and the long forms of type key (5), key-prefix (7),
  address-leaf-no-overflow (3) and key-overflow (6).
\<close>

definition is_key_cell :: "int \<Rightarrow> bool" where
  "is_key_cell desc \<longleftrightarrow>
     desc AND 0x3 = 1 \<or> desc AND 0x3 = 2 \<or>
     (desc AND 0x3 = 0 \<and> drop_bit 4 (desc AND 0xf0) \<in> {5, 7, 3, 6})"

text \<open>The decoded length of a cell: the last number of its description.\<close>

definition cell_length :: "(fmt \<times> byte list) option \<Rightarrow> int" where
  "cell_length c = (case c of Some ((t, args), x) \<Rightarrow> last args | None \<Rightarrow> 0)"

lemma celltype_string_iff:
  "celltype_string ct = ''WT_CELL_VALUE'' \<longleftrightarrow> ct = 8"
  "celltype_string ct = ''WT_CELL_KEY'' \<longleftrightarrow> ct = 5"
  "celltype_string ct = ''WT_CELL_ADDR_LEAF_NO'' \<longleftrightarrow> ct = 3"
  "celltype_string ct = ''WT_CELL_KEY_PFX'' \<longleftrightarrow> ct = 7"
  "celltype_string ct = ''WT_CELL_KEY_OVFL'' \<longleftrightarrow> ct = 6"
  "celltype_string ct = ''WT_CELL_VALUE_OVFL'' \<longleftrightarrow> ct = 10"
  by (simp_all add: celltype_string_def)

lemma keeps_long_length: "keeps long_length"
  unfolding long_length_def Let_def by (intro keeps_bnd keeps_seq keeps_if) simp_all

lemma keeps_typed_not_key:
  assumes "drop_bit 4 (desc AND 0xf0) \<notin> {5, 7, 3, 6}"
  shows "keeps (cell_typed desc extra ds)"
  using assms unfolding cell_typed_def Let_def celltype_string_iff
  by (auto intro!: keeps_bnd keeps_seq keeps_if keeps_long_length)

lemma key_stats_add_key:
  "pagestats st' = add_key l (pagestats st)
    \<Longrightarrow> key_stats st' = (num_keys (pagestats st) + 1, keys_sz (pagestats st) + l)"
  by (simp add: key_stats_def add_key_def)

lemma typed_key_stats:
  assumes "cell_typed desc extra ds st = (Ok (c, ds'), st')"
  shows "key_stats st' =
    (if drop_bit 4 (desc AND 0xf0) \<in> {5, 7, 3, 6}
     then (num_keys (pagestats st) + 1, keys_sz (pagestats st) + cell_length c)
     else key_stats st)"
proof -
  consider (k) "drop_bit 4 (desc AND 0xf0) = 5" | (p) "drop_bit 4 (desc AND 0xf0) = 7"
    | (a) "drop_bit 4 (desc AND 0xf0) = 3" | (o) "drop_bit 4 (desc AND 0xf0) = 6"
    | (n) "drop_bit 4 (desc AND 0xf0) \<notin> {5, 7, 3, 6}" by blast
  then show ?thesis
  proof cases
    case k
    from typed_key [OF k assms] obtain l where "cell_length c = l"
      "pagestats st' = add_key l (pagestats st)" by (auto simp add: cell_length_def)
    then show ?thesis using k key_stats_add_key by simp
  next
    case p
    from typed_key_pfx [OF p assms] obtain l where "cell_length c = l"
      "pagestats st' = add_key l (pagestats st)" by (auto simp add: cell_length_def)
    then show ?thesis using p key_stats_add_key by simp
  next
    case a
    from typed_addr_leaf_no [OF a assms] obtain l where "cell_length c = l"
      "pagestats st' = add_key l (pagestats st)" by (auto simp add: cell_length_def)
    then show ?thesis using a key_stats_add_key by simp
  next
    case o
    from typed_key_ovfl [OF o assms] obtain l where "cell_length c = l"
      "pagestats st' = add_key l (pagestats st)" by (auto simp add: cell_length_def)
    then show ?thesis using o key_stats_add_key by simp
  next
    case n
    from keepsD [OF keeps_typed_not_key [OF n] assms] show ?thesis using n by simp
  qed
qed

lemma long_key_stats:
  assumes "cell_long desc ds0 st = (Ok (c, ds), st')"
  shows "key_stats st' =
    (if drop_bit 4 (desc AND 0xf0) \<in> {5, 7, 3, 6}
     then (num_keys (pagestats st) + 1, keys_sz (pagestats st) + cell_length c)
     else key_stats st)"
proof -
  from assms obtain extra ds1 st1 ds2 st2 where
    e: "cell_extra desc ds0 st = (Ok (extra, ds1), st1)"
    and r: "cell_runlength desc ds1 st1 = (Ok ds2, st2)"
    and t: "cell_typed desc extra ds2 st2 = (Ok (c, ds), st')"
    by (rule cell_long_OkE)
  have "key_stats st2 = key_stats st"
    using keepsD [OF keeps_cell_extra e] keepsD [OF keeps_cell_runlength r] by simp
  then show ?thesis using typed_key_stats [OF t] by (simp add: key_stats_def)
qed

lemma cell_parse_key_stats:
  assumes "cell_parse st = (Ok (c, ds), st')"
  shows "key_stats st' =
    (if is_key_cell (from_bytes_little (take 1 (avail (bstream st))))
     then (num_keys (pagestats st) + 1, keys_sz (pagestats st) + cell_length c)
     else key_stats st)"
proof -
  define desc where "desc = from_bytes_little (take 1 (avail (bstream st)))"
  from assms obtain d st0 where u: "on_b_total uint8 st = (Ok d, st0)"
    and rest: "(let short = d AND 0x3; desc_str = (''desc: 0x{} '', [d]) in
      if short = 0 then cell_long d desc_str
      else if short = 2 then
        (let l = drop_bit 2 (d AND 0xfc) in
         bnd (on_b read1) (\<lambda>pfx_compress_byte.
         bnd (on_b (read l)) (\<lambda>x.
         seq (upd_stats (add_key l))
             (ret (Some ((''short key prefix={} {} bytes'', [pfx_compress_byte, l]), x),
                   desc_str)))))
      else
        (let l = drop_bit 2 (d AND 0xfc) in
         bnd (if short = 1 then
                seq (upd_stats (add_key l)) (ret (''short key {} bytes'', [l]))
              else ret (''short val {} bytes'', [l])) (\<lambda>s.
         bnd (on_b (read l)) (\<lambda>x.
         ret (Some (s, x), desc_str))))) st0 = (Ok (c, ds), st')"
    unfolding cell_parse_def by (erule bnd_OkE)
  from on_b_uint8_Ok [OF u] have d: "d = desc" and p0: "pagestats st0 = pagestats st"
    by (simp_all add: desc_def)
  have k0: "key_stats st0 = key_stats st" using p0 by (simp add: key_stats_def)
  have "key_stats st' =
    (if is_key_cell desc
     then (num_keys (pagestats st) + 1, keys_sz (pagestats st) + cell_length c)
     else key_stats st)"
  proof -
  consider (long) "d AND 0x3 = 0" | (two) "d AND 0x3 = 2" | (one) "d AND 0x3 = 1"
    | (three) "d AND 0x3 \<noteq> 0" "d AND 0x3 \<noteq> 2" "d AND 0x3 \<noteq> 1" by blast
  then show ?thesis
  proof cases
    case long
    with rest have "cell_long d (''desc: 0x{} '', [d]) st0 = (Ok (c, ds), st')"
      by (simp add: Let_def)
    from long_key_stats [OF this] show ?thesis
      using long p0 d by (simp add: is_key_cell_def key_stats_def)
  next
    case two
    define l where "l = drop_bit 2 (d AND 0xfc)"
    from two rest obtain pfx st1 x st2 where a: "on_b read1 st0 = (Ok pfx, st1)"
      and b: "on_b (read l) st1 = (Ok x, st2)"
      and r: "seq (upd_stats (add_key l))
             (ret (Some ((''short key prefix={} {} bytes'', [pfx, l]), x),
                   (''desc: 0x{} '', [d]))) st2 = (Ok (c, ds), st')"
      by (auto simp add: Let_def l_def elim!: bnd_OkE)
    from r have "c = Some ((''short key prefix={} {} bytes'', [pfx, l]), x)"
      "pagestats st' = add_key l (pagestats st2)" by (auto simp add: dec_defs)
    moreover have "pagestats st2 = pagestats st"
      using on_b_read1_Ok [OF a] on_b_read_Ok [OF b] p0 by auto
    ultimately show ?thesis using two d
      by (simp add: is_key_cell_def key_stats_def add_key_def cell_length_def)
  next
    case one
    define l where "l = drop_bit 2 (d AND 0xfc)"
    from one rest obtain s st1 x st2 where
      a: "seq (upd_stats (add_key l)) (ret (''short key {} bytes'', [l])) st0 = (Ok s, st1)"
      and b: "on_b (read l) st1 = (Ok x, st2)"
      and r: "ret (Some (s, x), (''desc: 0x{} '', [d])) st2 = (Ok (c, ds), st')"
      by (auto simp add: Let_def l_def elim!: bnd_OkE)
    from a have "s = (''short key {} bytes'', [l])" "pagestats st1 = add_key l (pagestats st0)"
      by (auto simp add: dec_defs)
    moreover from r have "c = Some (s, x)" "st' = st2" by (auto simp add: dec_defs)
    moreover have "pagestats st2 = pagestats st1" using on_b_read_Ok [OF b] by simp
    ultimately show ?thesis using one d p0
      by (simp add: is_key_cell_def key_stats_def add_key_def cell_length_def)
  next
    case three
    define l where "l = drop_bit 2 (d AND 0xfc)"
    from three rest obtain s st1 x st2 where
      a: "ret (''short val {} bytes'', [l]) st0 = (Ok s, st1)"
      and b: "on_b (read l) st1 = (Ok x, st2)"
      and r: "ret (Some (s, x), (''desc: 0x{} '', [d])) st2 = (Ok (c, ds), st')"
      by (auto simp add: Let_def l_def elim!: bnd_OkE)
    from a have "st1 = st0" by (auto simp add: dec_defs)
    moreover from r have "st' = st2" by (auto simp add: dec_defs)
    moreover have "pagestats st2 = pagestats st1" using on_b_read_Ok [OF b] by simp
    ultimately show ?thesis using three d p0
      by (simp add: is_key_cell_def key_stats_def)
  qed
  qed
  then show ?thesis by (simp only: desc_def)
qed

text \<open>
  A synthetic short key cell: the descriptor byte carries the length in bits 2-7 and the
  form 1 in the bottom bits, and is followed by the bytes of the key.
\<close>

definition short_key_cell :: "byte list \<Rightarrow> byte list" where
  "short_key_cell k = word_of_nat (4 * length k + 1) # k"

lemma short_key_desc:
  assumes "length k < 64"
  shows "uint (word_of_nat (4 * length k + 1) :: byte) = 4 * int (length k) + 1"
proof -
  have "4 * length k + 1 < 2 ^ LENGTH(8)" using assms by simp
  then have "unat (word_of_nat (4 * length k + 1) :: byte) = 4 * length k + 1"
    by (simp only: unat_of_nat mod_less)
  then have "uint (word_of_nat (4 * length k + 1) :: byte) = int (4 * length k + 1)"
    by (metis uint_nat)
  then show ?thesis by simp
qed

lemma drop_after:
  assumes "drop p xs = a @ r"
  shows "drop (p + length a) xs = r"
proof -
  have "drop (p + length a) xs = drop (length a) (drop p xs)" by (simp add: add.commute)
  then show ?thesis using assms by simp
qed

lemma avail_advance: "avail (s\<lparr>spos := spos s + n\<rparr>) = drop n (avail s)"
  by (simp add: avail_def add.commute)

lemma uint8_forward:
  assumes "avail (bstream st) = d # r"
  shows "on_b_total uint8 st
    = (Ok (uint d), st\<lparr>bstream := (bstream st)\<lparr>spos := spos (bstream st) + 1\<rparr>\<rparr>)"
proof -
  have "take (Suc 0) (drop (spos (bstream st)) (sdata (bstream st))) = [d]"
    using assms by (simp add: avail_def)
  then show ?thesis
    by (simp add: on_b_total_def uint8_def uint_n_def read_bytes_def Let_def)
qed

lemma read_forward:
  assumes "avail (bstream st) = a @ r" and "length a < 2 ^ 63"
  shows "on_b (read (int (length a))) st
    = (Ok a, st\<lparr>bstream := (bstream st)\<lparr>spos := spos (bstream st) + length a\<rparr>\<rparr>)"
proof -
  have "take (length a) (drop (spos (bstream st)) (sdata (bstream st))) = a"
    using assms by (simp add: avail_def)
  moreover have "\<not> (2 :: int) ^ 63 \<le> int (length a)" using assms(2) by simp
  ultimately show ?thesis
    by (simp add: on_b_def read_def read_bytes_def Let_def)
qed

lemma cell_print_Some:
  "\<exists>evs. cell_print cellpos (Some (s, x), ds) st = (Ok (), st\<lparr>out := out st @ evs\<rparr>)"
proof (cases "raw_bytes x")
  case (Inl e)
  then have "cell_print cellpos (Some (s, x), ds) st
      = (Ok (), st\<lparr>out := out st @ [Rint_v (fcat ds (fcat s (lit '':'')))]\<rparr>)"
    by (simp add: cell_print_def dec_defs)
  then show ?thesis by blast
next
  case (Inr sh)
  then have "cell_print cellpos (Some (s, x), ds) st
      = (Ok (), st\<lparr>out := out st @ [Rint_v (fcat ds (fcat s (lit '':''))), Rint_v_raw sh]\<rparr>)"
    by (simp add: cell_print_def dec_defs)
  then show ?thesis by blast
qed

lemma cell_parse_short_key:
  assumes a: "avail (bstream st) = short_key_cell k @ rest" and k: "length k < 64"
  shows "cell_parse st
    = (Ok (Some ((''short key {} bytes'', [int (length k)]), k),
           (''desc: 0x{} '', [4 * int (length k) + 1])),
       st\<lparr>bstream := (bstream st)\<lparr>spos := spos (bstream st) + 1 + length k\<rparr>,
          pagestats := add_key (int (length k)) (pagestats st)\<rparr>)"
proof -
  define d :: byte where "d = word_of_nat (4 * length k + 1)"
  have ud: "uint d = 4 * int (length k) + 1" unfolding d_def by (rule short_key_desc [OF k])
  have A: "avail (bstream st) = d # (k @ rest)"
    using a by (simp add: short_key_cell_def d_def)
  define st1 where "st1 = st\<lparr>bstream := (bstream st)\<lparr>spos := spos (bstream st) + 1\<rparr>\<rparr>"
  have u: "on_b_total uint8 st = (Ok (4 * int (length k) + 1), st1)"
    using uint8_forward [OF A] by (simp add: ud st1_def)
  define st2 where "st2 = st1\<lparr>pagestats := add_key (int (length k)) (pagestats st1)\<rparr>"
  have av2: "avail (bstream st2) = k @ rest"
    using A avail_advance [of "bstream st" 1] by (simp add: st2_def st1_def)
  have r: "on_b (read (int (length k))) st2
    = (Ok k, st2\<lparr>bstream := (bstream st2)\<lparr>spos := spos (bstream st2) + length k\<rparr>\<rparr>)"
    using k by (intro read_forward [OF av2]) simp
  have s1: "(4 * int (length k) + 1) AND 3 = 1" by (simp add: and3_mod)
  have s2: "drop_bit 2 ((4 * int (length k) + 1) AND 0xfc) = int (length k)"
    using k by (subst drop2_and_fc) simp_all
  have "cell_parse st = (Ok (Some ((''short key {} bytes'', [int (length k)]), k),
           (''desc: 0x{} '', [4 * int (length k) + 1])),
       st2\<lparr>bstream := (bstream st2)\<lparr>spos := spos (bstream st2) + length k\<rparr>\<rparr>)"
    unfolding cell_parse_def
    apply (simp only: bnd_def u prod.case result.case Let_def s1 s2)
    apply (simp add: seq_def bnd_def upd_stats_def ret_def r [unfolded st2_def] st2_def)
    done
  then show ?thesis by (simp add: st2_def st1_def)
qed

lemma row_cell_short_key:
  assumes a: "avail (bstream st) = short_key_cell k @ rest" and k: "length k < 64"
  shows "\<exists>evs. row_cell cellnum cellpos st
    = (Ok (),
       st\<lparr>bstream := (bstream st)\<lparr>spos := spos (bstream st) + 1 + length k\<rparr>,
          pagestats := add_key (int (length k)) (pagestats st),
          out := out st @ evs\<rparr>)"
proof -
  define st0 where "st0 = st\<lparr>out := out st @ [Begin_cell cellnum cellpos]\<rparr>"
  have a0: "avail (bstream st0) = short_key_cell k @ rest" using a by (simp add: st0_def)
  define st1 where "st1 = st0\<lparr>bstream := (bstream st0)\<lparr>spos := spos (bstream st0) + 1 + length k\<rparr>,
          pagestats := add_key (int (length k)) (pagestats st0)\<rparr>"
  note p = cell_parse_short_key [OF a0 k, folded st1_def]
  obtain evs where pr: "cell_print cellpos
      (Some ((''short key {} bytes'', [int (length k)]), k),
       (''desc: 0x{} '', [4 * int (length k) + 1])) st1
      = (Ok (), st1\<lparr>out := out st1 @ evs\<rparr>)"
    using cell_print_Some by blast
  have "row_cell cellnum cellpos st = (Ok (), st1\<lparr>out := out st1 @ evs @ [End_cell]\<rparr>)"
    by (simp add: row_cell_def seq_def bnd_def emit_def p pr flip: st0_def)
  then have "row_cell cellnum cellpos st
    = (Ok (),
       st\<lparr>bstream := (bstream st)\<lparr>spos := spos (bstream st) + 1 + length k\<rparr>,
          pagestats := add_key (int (length k)) (pagestats st),
          out := out st @ ([Begin_cell cellnum cellpos] @ evs @ [End_cell])\<rparr>)"
    by (simp add: st1_def st0_def)
  then show ?thesis by blast
qed

lemma row_loop_short_keys:
  assumes "\<forall>k\<in>set ks. length k < 64"
    and "avail (bstream st) = concat (map short_key_cell ks) @ rest"
    and "int (spos (bstream st) + length (concat (map short_key_cell ks))) \<le> memsize ph"
  shows "\<exists>st'. row_loop ph (length ks) c st = (Ok (), st')
    \<and> num_keys (pagestats st') = num_keys (pagestats st) + int (length ks)
    \<and> keys_sz (pagestats st') = keys_sz (pagestats st) + int (sum_list (map length ks))
    \<and> avail (bstream st') = rest"
  using assms
proof (induction ks arbitrary: st c)
  case Nil
  then show ?case by simp
next
  case (Cons k ks)
  have k: "length k < 64" using Cons.prems(1) by simp
  have a: "avail (bstream st) = short_key_cell k @ (concat (map short_key_cell ks) @ rest)"
    using Cons.prems(2) by simp
  have len: "length (short_key_cell k) = 1 + length k" by (simp add: short_key_cell_def)
  from row_cell_short_key [OF a k, of c "tell (bstream st)"] obtain evs where
    rc: "row_cell c (tell (bstream st)) st = (Ok (),
       st\<lparr>bstream := (bstream st)\<lparr>spos := spos (bstream st) + 1 + length k\<rparr>,
          pagestats := add_key (int (length k)) (pagestats st),
          out := out st @ evs\<rparr>)" by blast
  define st1 where "st1 = st\<lparr>bstream := (bstream st)\<lparr>spos := spos (bstream st) + 1 + length k\<rparr>,
          pagestats := add_key (int (length k)) (pagestats st),
          out := out st @ evs\<rparr>"
  have a1: "avail (bstream st1) = concat (map short_key_cell ks) @ rest"
    using a avail_advance [of "bstream st" "1 + length k"] len
    by (simp add: st1_def add.assoc)
  have m1: "int (spos (bstream st1) + length (concat (map short_key_cell ks))) \<le> memsize ph"
    using Cons.prems(3) len by (simp add: st1_def add.assoc)
  have ks: "\<forall>k\<in>set ks. length k < 64" using Cons.prems(1) by simp
  from Cons.IH [OF ks a1 m1, of "Suc c"] obtain st' where
    l: "row_loop ph (length ks) (Suc c) st1 = (Ok (), st')"
    and n: "num_keys (pagestats st') = num_keys (pagestats st1) + int (length ks)"
    and z: "keys_sz (pagestats st') = keys_sz (pagestats st1) + int (sum_list (map length ks))"
    and r: "avail (bstream st') = rest" by blast
  have lt: "\<not> memsize ph \<le> int (tell (bstream st))"
    using Cons.prems(3) len by (simp add: tell_def)
  have rc': "row_cell c (tell (bstream st)) st = (Ok (), st1)"
    using rc by (simp add: st1_def)
  have "row_loop ph (length (k # ks)) c st = (Ok (), st')"
    using lt by (simp add: Let_def rc' l)
  moreover have "num_keys (pagestats st1) = num_keys (pagestats st) + 1"
    "keys_sz (pagestats st1) = keys_sz (pagestats st) + int (length k)"
    by (simp_all add: st1_def add_key_def)
  ultimately show ?case using n z r by simp
qed

lemma row_cell_OkE:
  assumes "row_cell cellnum cellpos st = (Ok u, st')"
  obtains c ds st1 where
    "cell_parse (st\<lparr>out := out st @ [Begin_cell cellnum cellpos]\<rparr>) = (Ok (c, ds), st1)"
    "key_stats st' = key_stats st1"
proof -
  obtain r st2 where s: "seq (emit (Begin_cell cellnum cellpos))
      (bnd cell_parse (cell_print cellpos)) st = (r, st2)" by (cases "seq (emit (Begin_cell cellnum cellpos))
      (bnd cell_parse (cell_print cellpos)) st")
  with assms have r: "r = Ok u" and st': "st' = st2\<lparr>out := out st2 @ [End_cell]\<rparr>"
    by (simp_all add: row_cell_def)
  from s r have "bnd cell_parse (cell_print cellpos)
      (st\<lparr>out := out st @ [Begin_cell cellnum cellpos]\<rparr>) = (Ok u, st2)"
    by (simp add: seq_def bnd_def emit_def)
  then obtain cd st1 where p: "cell_parse (st\<lparr>out := out st @ [Begin_cell cellnum cellpos]\<rparr>)
      = (Ok cd, st1)" and q: "cell_print cellpos cd st1 = (Ok u, st2)"
    by (erule bnd_OkE)
  obtain c ds where cd: "cd = (c, ds)" by (cases cd)
  have "key_stats st2 = key_stats st1" using keepsD [OF keeps_cell_print q] .
  then have "key_stats st' = key_stats st1" by (simp add: st' key_stats_def)
  with p cd show ?thesis using that by blast
qed

text \<open>
  Claim C3.  A cell that decodes successfully changes \<open>num_keys\<close> and \<open>keys_sz\<close> exactly
  when it is one of the key kinds, and then by one and by the decoded length of the cell.
  Hence a page of \<open>N\<close> short key cells, lying inside \<open>memsize\<close> and with \<open>ncells = N\<close>, ends
  with \<open>num_keys\<close> raised by \<open>N\<close> and \<open>keys_sz\<close> by the sum of the key lengths.
\<close>

theorem key_cell_accounting:
  "(row_cell cellnum cellpos st = (Ok (), st') \<longrightarrow>
      (\<exists>c ds st1.
         cell_parse (st\<lparr>out := out st @ [Begin_cell cellnum cellpos]\<rparr>) = (Ok (c, ds), st1) \<and>
         (num_keys (pagestats st'), keys_sz (pagestats st')) =
           (if is_key_cell (from_bytes_little (take 1 (avail (bstream st))))
            then (num_keys (pagestats st) + 1, keys_sz (pagestats st) + cell_length c)
            else (num_keys (pagestats st), keys_sz (pagestats st)))))
   \<and> ((\<forall>k\<in>set ks. length k < 64)
        \<and> avail (bstream sp) = concat (map short_key_cell ks) @ rest
        \<and> int (spos (bstream sp) + length (concat (map short_key_cell ks))) \<le> memsize ph
        \<and> ncells ph = int (length ks) \<longrightarrow>
      (\<exists>sp'. row_decode ph sp = (Ok (), sp')
         \<and> num_keys (pagestats sp') = num_keys (pagestats sp) + int (length ks)
         \<and> keys_sz (pagestats sp') = keys_sz (pagestats sp) + int (sum_list (map length ks))))"
proof (intro conjI impI)
  assume a: "row_cell cellnum cellpos st = (Ok (), st')"
  then obtain c ds st1 where
    p: "cell_parse (st\<lparr>out := out st @ [Begin_cell cellnum cellpos]\<rparr>) = (Ok (c, ds), st1)"
    and k: "key_stats st' = key_stats st1" by (rule row_cell_OkE)
  from cell_parse_key_stats [OF p] k have
    "(num_keys (pagestats st'), keys_sz (pagestats st')) =
           (if is_key_cell (from_bytes_little (take 1 (avail (bstream st))))
            then (num_keys (pagestats st) + 1, keys_sz (pagestats st) + cell_length c)
            else (num_keys (pagestats st), keys_sz (pagestats st)))"
    by (simp add: key_stats_def avail_def)
  with p show "\<exists>c ds st1.
         cell_parse (st\<lparr>out := out st @ [Begin_cell cellnum cellpos]\<rparr>) = (Ok (c, ds), st1) \<and>
         (num_keys (pagestats st'), keys_sz (pagestats st')) =
           (if is_key_cell (from_bytes_little (take 1 (avail (bstream st))))
            then (num_keys (pagestats st) + 1, keys_sz (pagestats st) + cell_length c)
            else (num_keys (pagestats st), keys_sz (pagestats st)))" by blast
next
  assume h: "(\<forall>k\<in>set ks. length k < 64)
        \<and> avail (bstream sp) = concat (map short_key_cell ks) @ rest
        \<and> int (spos (bstream sp) + length (concat (map short_key_cell ks))) \<le> memsize ph
        \<and> ncells ph = int (length ks)"
  then have n: "nat (ncells ph) = length ks" by simp
  from h row_loop_short_keys [of ks sp rest ph 0] obtain sp' where
    "row_loop ph (length ks) 0 sp = (Ok (), sp')"
    "num_keys (pagestats sp') = num_keys (pagestats sp) + int (length ks)"
    "keys_sz (pagestats sp') = keys_sz (pagestats sp) + int (sum_list (map length ks))"
    by blast
  then show "\<exists>sp'. row_decode ph sp = (Ok (), sp')
         \<and> num_keys (pagestats sp') = num_keys (pagestats sp) + int (length ks)
         \<and> keys_sz (pagestats sp') = keys_sz (pagestats sp) + int (sum_list (map length ks))"
    by (simp add: row_decode_def n)
qed

theorem key_cell_accounting_witness:
  "(\<exists>st' c. row_cell 0 0 \<lparr>bstream = \<lparr>sdata = [0x05, 0x41], spos = 0\<rparr>,
                 pagestats = PageStats0, out = []\<rparr> = (Ok (), st')
      \<and> (num_keys (pagestats st'), keys_sz (pagestats st')) = (0 + 1, 0 + cell_length c))
   \<and> (\<exists>sp'. row_decode
          \<lparr>recno = 0, writegen = 0, memsize = 45, ncells = 2, ptype = 7, pflags = 0,
           version = 1\<rparr>
          \<lparr>bstream = \<lparr>sdata = [0x05, 0x41, 0x09, 0x42, 0x43], spos = 0\<rparr>,
           pagestats = PageStats0, out = []\<rparr> = (Ok (), sp')
      \<and> num_keys (pagestats sp') = 0 + 2 \<and> keys_sz (pagestats sp') = 0 + 3)"
proof -
  let ?st = "\<lparr>bstream = \<lparr>sdata = [0x05, 0x41], spos = 0\<rparr>,
      pagestats = PageStats0, out = []\<rparr> :: dstate"
  let ?ph = "\<lparr>recno = 0, writegen = 0, memsize = 45, ncells = 2, ptype = 7, pflags = 0,
      version = 1\<rparr> :: PageHeader"
  let ?sp = "\<lparr>bstream = \<lparr>sdata = [0x05, 0x41, 0x09, 0x42, 0x43], spos = 0\<rparr>,
      pagestats = PageStats0, out = []\<rparr> :: dstate"
  let ?ks = "[[0x41], [0x42, 0x43]] :: byte list list"
  note t = key_cell_accounting
  obtain st' where h: "row_cell 0 0 ?st = (Ok (), st')"
  proof -
    have "avail (bstream ?st) = short_key_cell [0x41] @ []"
      by (simp add: avail_def short_key_cell_def)
    from row_cell_short_key [OF this, of 0 0] show ?thesis using that by auto
  qed
  have key: "is_key_cell (from_bytes_little (take 1 (avail (bstream ?st))))"
    by (simp add: avail_def is_key_cell_def)
  have z: "num_keys (pagestats ?st) = 0" "keys_sz (pagestats ?st) = 0"
    by (simp_all add: PageStats0_def)
  from t [where st = "?st" and st' = st' and cellnum = 0 and cellpos = 0] h
  obtain c where "(num_keys (pagestats st'), keys_sz (pagestats st')) =
      (if is_key_cell (from_bytes_little (take 1 (avail (bstream ?st))))
       then (num_keys (pagestats ?st) + 1, keys_sz (pagestats ?st) + cell_length c)
       else (num_keys (pagestats ?st), keys_sz (pagestats ?st)))"
    by blast
  then have "(num_keys (pagestats st'), keys_sz (pagestats st')) = (0 + 1, 0 + cell_length c)"
    unfolding z using key by simp
  with h have first: "\<exists>st' c. row_cell 0 0 ?st = (Ok (), st')
      \<and> (num_keys (pagestats st'), keys_sz (pagestats st')) = (0 + 1, 0 + cell_length c)"
    by blast
  have hyp: "(\<forall>k\<in>set ?ks. length k < 64)
        \<and> avail (bstream ?sp) = concat (map short_key_cell ?ks) @ []
        \<and> int (spos (bstream ?sp) + length (concat (map short_key_cell ?ks))) \<le> memsize ?ph
        \<and> ncells ?ph = int (length ?ks)"
    by (simp add: avail_def short_key_cell_def)
  have zp: "num_keys (pagestats ?sp) = 0" "keys_sz (pagestats ?sp) = 0"
    by (simp_all add: PageStats0_def)
  from t [where sp = "?sp" and ks = "?ks" and rest = "[]" and ph = "?ph"] hyp
  obtain sp' where "row_decode ?ph ?sp = (Ok (), sp')"
    "num_keys (pagestats sp') = num_keys (pagestats ?sp) + int (length ?ks)"
    "keys_sz (pagestats sp') = keys_sz (pagestats ?sp) + int (sum_list (map length ?ks))"
    by blast
  then have second: "\<exists>sp'. row_decode ?ph ?sp = (Ok (), sp')
      \<and> num_keys (pagestats sp') = 0 + 2 \<and> keys_sz (pagestats sp') = 0 + 3"
    unfolding zp by simp
  from first second show ?thesis by (rule conjI)
qed


section \<open>The cell loop\<close>

fun is_begin_cell :: "event \<Rightarrow> bool" where
  "is_begin_cell (Begin_cell k pos) = True"
| "is_begin_cell e = False"

definition quiet :: "'a dec \<Rightarrow> bool" where
  "quiet m \<longleftrightarrow>
     (\<forall>st r st'. m st = (r, st') \<longrightarrow>
        (\<exists>new. out st' = out st @ new \<and> (\<forall>e\<in>set new. \<not> is_begin_cell e)))"


lemma quiet_ret [simp]: "quiet (ret x)"
  by (simp add: quiet_def ret_def)



lemma quiet_emit: "\<not> is_begin_cell e \<Longrightarrow> quiet (emit e)"
  by (simp add: quiet_def emit_def)

lemma quiet_rint [simp]: "quiet (rint s)" "quiet (rint_v s)"
  by (simp_all add: rint_def rint_v_def quiet_emit)

lemma quiet_on_b [simp]: "quiet (on_b f)" "quiet (on_b_total g)"
  by (auto simp add: quiet_def on_b_def on_b_total_def split: prod.splits)

lemma quiet_upd [simp]: "quiet (upd_stats f)"
  by (simp add: quiet_def upd_stats_def)



















lemma typed_other:
  assumes "drop_bit 4 (desc AND 0xf0) \<notin> {3, 5, 6, 7, 8, 10}"
  shows "cell_typed desc extra ds st =
    (Ok (None, lit ''''),
     st\<lparr>out := out st @ [Rint (fcat ds
        ('', celltype = {} ('' @ celltype_string (drop_bit 4 (desc AND 0xf0)) @ '') not implemented'',
         [drop_bit 4 (desc AND 0xf0)]))]\<rparr>)"
  using assms
  by (simp add: cell_typed_def Let_def celltype_string_iff dec_defs)

lemma dumpraw_forward:
  "\<exists>evs. dumpraw pos st = (Ok (), st\<lparr>out := out st @ evs\<rparr>)
     \<and> (\<forall>e \<in> set evs. \<exists>p bs. e = Dump_line p bs)"
proof -
  obtain bytes s' where r: "read_bytes 256 (seek pos (bstream st)) = (bytes, s')"
    by (cases "read_bytes 256 (seek pos (bstream st))")
  then have "sdata s' = sdata (bstream st)"
    by (auto simp add: read_bytes_def seek_def Let_def)
  then have "seek (tell (bstream st)) s' = bstream st"
    by (simp add: seek_def tell_def)
  then have "dumpraw pos st = (Ok (), st\<lparr>out := out st @
     map (\<lambda>i. Dump_line (pos + i * 16) (take 16 (drop (i * 16) bytes)))
        [0 ..< (length bytes + 16 - 1) div 16]\<rparr>)"
    by (simp add: dumpraw_def Let_def r)
  then show ?thesis by (intro exI conjI) auto
qed

lemma cell_parse_other:
  assumes a: "avail (bstream st) = d # rest"
    and lo: "uint d AND 0xf = 0"
    and ty: "drop_bit 4 (uint d AND 0xf0) \<notin> {3, 5, 6, 7, 8, 10}"
  shows "cell_parse st =
    (Ok (None, lit ''''),
     st\<lparr>bstream := (bstream st)\<lparr>spos := spos (bstream st) + 1\<rparr>,
        out := out st @ [Rint (fcat (''desc: 0x{} '', [uint d])
        ('', celltype = {} ('' @ celltype_string (drop_bit 4 (uint d AND 0xf0)) @ '') not implemented'',
         [drop_bit 4 (uint d AND 0xf0)]))]\<rparr>)"
proof -
  have "uint d AND 0x3 = (uint d AND 0xf) AND 0x3" "uint d AND 0x8 = (uint d AND 0xf) AND 0x8"
    "uint d AND 0x4 = (uint d AND 0xf) AND 0x4"
    by (simp_all add: and.assoc)
  then have b3: "uint d AND 0x3 = 0" and b8: "uint d AND 0x8 = 0" and b4: "uint d AND 0x4 = 0"
    by (simp_all only: lo and.left_neutral bit.conj_zero_left)
  show ?thesis
    unfolding cell_parse_def
    apply (simp only: bnd_def uint8_forward [OF a] prod.case result.case Let_def b3 if_True)
    apply (simp add: cell_long_def cell_extra_def cell_runlength_def b8 b4 bnd_def ret_def
        typed_other [OF ty])
    done
qed


lemma row_cell_other:
  assumes a: "avail (bstream st) = d # rest"
    and lo: "uint d AND 0xf = 0"
    and ty: "drop_bit 4 (uint d AND 0xf0) \<notin> {3, 5, 6, 7, 8, 10}"
  shows "\<exists>evs. row_cell c pos st =
    (Ok (),
     st\<lparr>bstream := (bstream st)\<lparr>spos := spos (bstream st) + 1\<rparr>,
        out := out st @ Begin_cell c pos # Rint (fcat (''desc: 0x{} '', [uint d])
        ('', celltype = {} ('' @ celltype_string (drop_bit 4 (uint d AND 0xf0)) @ '') not implemented'',
         [drop_bit 4 (uint d AND 0xf0)])) # evs @ [End_cell]\<rparr>)
     \<and> (\<forall>e \<in> set evs. \<exists>p bs. e = Dump_line p bs)"
proof -
  let ?r = "Rint (fcat (''desc: 0x{} '', [uint d])
        ('', celltype = {} ('' @ celltype_string (drop_bit 4 (uint d AND 0xf0)) @ '') not implemented'',
         [drop_bit 4 (uint d AND 0xf0)]))"
  define st0 where "st0 = st\<lparr>out := out st @ [Begin_cell c pos]\<rparr>"
  have a0: "avail (bstream st0) = d # rest" using a by (simp add: st0_def)
  define st1 where "st1 = st0\<lparr>bstream := (bstream st0)\<lparr>spos := spos (bstream st0) + 1\<rparr>,
        out := out st0 @ [?r]\<rparr>"
  have p: "cell_parse st0 = (Ok (None, lit ''''), st1)"
    unfolding st1_def by (rule cell_parse_other [OF a0 lo ty])
  from dumpraw_forward [of pos st1] obtain evs where
    d: "dumpraw pos st1 = (Ok (), st1\<lparr>out := out st1 @ evs\<rparr>)"
    and e: "\<forall>e \<in> set evs. \<exists>p bs. e = Dump_line p bs" by blast
  have "row_cell c pos st = (Ok (), st1\<lparr>out := out st1 @ evs @ [End_cell]\<rparr>)"
    by (simp add: row_cell_def seq_def bnd_def emit_def st0_def [symmetric] p cell_print_def d)
  then have "row_cell c pos st =
    (Ok (),
     st\<lparr>bstream := (bstream st)\<lparr>spos := spos (bstream st) + 1\<rparr>,
        out := out st @ Begin_cell c pos # ?r # evs @ [End_cell]\<rparr>)"
    by (simp add: st1_def st0_def)
  with e show ?thesis by blast
qed


text \<open>
  What a long-form cell reads before its type is looked at: the extra descriptor with its
  timestamps, and the run length.  \<open>cell_long\<close> is this followed by the type dispatch.
\<close>

definition cell_prelude :: "int \<Rightarrow> fmt \<Rightarrow> (int \<times> fmt) dec" where
  "cell_prelude desc desc_str0 =
    bnd (cell_extra desc desc_str0) (\<lambda>(extra, desc_str1).
    bnd (cell_runlength desc desc_str1) (\<lambda>desc_str.
    ret (extra, desc_str)))"

lemma cell_long_prelude:
  "cell_long desc ds0 st =
    (case cell_prelude desc ds0 st of
       (Ok (extra, ds), s1) \<Rightarrow> cell_typed desc extra ds s1
     | (Raise e, s1) \<Rightarrow> (Raise e, s1))"
  by (simp add: cell_long_def cell_prelude_def bnd_def ret_def
      split: prod.splits result.splits)

lemma cell_parse_long:
  assumes a: "avail (bstream st) = d # rest" and lo: "uint d AND 0x3 = 0"
  shows "cell_parse st =
    cell_long (uint d) (''desc: 0x{} '', [uint d])
      (st\<lparr>bstream := (bstream st)\<lparr>spos := spos (bstream st) + 1\<rparr>\<rparr>)"
  unfolding cell_parse_def
  by (simp add: bnd_def uint8_forward [OF a] Let_def lo)

lemma row_cell_long_other:
  assumes a: "avail (bstream st) = d # rest" and lo: "uint d AND 0x3 = 0"
    and ty: "drop_bit 4 (uint d AND 0xf0) \<notin> {3, 5, 6, 7, 8, 10}"
  shows "case cell_prelude (uint d) (''desc: 0x{} '', [uint d])
              (st\<lparr>bstream := (bstream st)\<lparr>spos := spos (bstream st) + 1\<rparr>,
                  out := out st @ [Begin_cell c pos]\<rparr>) of
           (Ok (extra, ds), s1) \<Rightarrow>
             (\<exists>evs. row_cell c pos st =
                 (Ok (), s1\<lparr>out := out s1 @ Rint (fcat ds
                    ('', celltype = {} ('' @ celltype_string (drop_bit 4 (uint d AND 0xf0))
                        @ '') not implemented'',
                     [drop_bit 4 (uint d AND 0xf0)])) # evs @ [End_cell]\<rparr>)
               \<and> (\<forall>e \<in> set evs. \<exists>p bs. e = Dump_line p bs))
         | (Raise e, s1) \<Rightarrow> row_cell c pos st = (Raise e, s1\<lparr>out := out s1 @ [End_cell]\<rparr>)"
proof -
  define st0 where "st0 = st\<lparr>out := out st @ [Begin_cell c pos]\<rparr>"
  define st1 where "st1 = st\<lparr>bstream := (bstream st)\<lparr>spos := spos (bstream st) + 1\<rparr>,
                  out := out st @ [Begin_cell c pos]\<rparr>"
  have a0: "avail (bstream st0) = d # rest" using a by (simp add: st0_def)
  have e1: "st0\<lparr>bstream := (bstream st0)\<lparr>spos := spos (bstream st0) + 1\<rparr>\<rparr> = st1"
    unfolding st0_def st1_def by (cases st) simp
  have p: "cell_parse st0 = cell_long (uint d) (''desc: 0x{} '', [uint d]) st1"
    using cell_parse_long [OF a0 lo] by (simp only: e1)
  have rc: "row_cell c pos st =
      (case bnd cell_parse (cell_print pos) st0 of
         (r, st') \<Rightarrow> (r, st'\<lparr>out := out st' @ [End_cell]\<rparr>))"
    by (simp add: row_cell_def seq_def bnd_def emit_def st0_def)
  obtain r s1 where pre: "cell_prelude (uint d) (''desc: 0x{} '', [uint d]) st1 = (r, s1)"
    by (cases "cell_prelude (uint d) (''desc: 0x{} '', [uint d]) st1")
  show ?thesis
  proof (cases r)
    case (Raise e)
    have "cell_parse st0 = (Raise e, s1)"
      unfolding p cell_long_prelude by (simp add: pre Raise)
    then have "row_cell c pos st = (Raise e, s1\<lparr>out := out s1 @ [End_cell]\<rparr>)"
      unfolding rc by (simp add: bnd_def)
    then show ?thesis unfolding st1_def [symmetric] by (simp add: pre Raise)
  next
    case (Ok x)
    obtain extra ds where x: "x = (extra, ds)" by (cases x)
    let ?r = "Rint (fcat ds
                    ('', celltype = {} ('' @ celltype_string (drop_bit 4 (uint d AND 0xf0))
                        @ '') not implemented'',
                     [drop_bit 4 (uint d AND 0xf0)]))"
    define s2 where "s2 = s1\<lparr>out := out s1 @ [?r]\<rparr>"
    have cp: "cell_parse st0 = (Ok (None, lit ''''), s2)"
      unfolding p cell_long_prelude by (simp add: pre Ok x typed_other [OF ty] s2_def)
    from dumpraw_forward [of pos s2] obtain evs where
      dr: "dumpraw pos s2 = (Ok (), s2\<lparr>out := out s2 @ evs\<rparr>)"
      and e: "\<forall>e \<in> set evs. \<exists>p bs. e = Dump_line p bs" by blast
    have "row_cell c pos st = (Ok (), s2\<lparr>out := out s2 @ evs @ [End_cell]\<rparr>)"
      unfolding rc by (simp add: bnd_def cp cell_print_def dr)
    then have "row_cell c pos st = (Ok (), s1\<lparr>out := out s1 @ ?r # evs @ [End_cell]\<rparr>)"
      by (simp add: s2_def)
    with e have "\<exists>evs. row_cell c pos st = (Ok (), s1\<lparr>out := out s1 @ ?r # evs @ [End_cell]\<rparr>)
        \<and> (\<forall>e \<in> set evs. \<exists>p bs. e = Dump_line p bs)" by blast
    then show ?thesis unfolding st1_def [symmetric] by (simp add: pre Ok x)
  qed
qed


section \<open>Progress of the scan\<close>

text \<open>
  A decoder moves the stream of the file forward from \<open>p\<close> when it never leaves it at a
  position before \<open>p\<close>, whether it returns or raises.
\<close>

definition fwd :: "nat \<Rightarrow> 'a dec \<Rightarrow> bool" where
  "fwd p m \<longleftrightarrow>
    (\<forall>st r st'. p \<le> spos (bstream st) \<longrightarrow> m st = (r, st') \<longrightarrow> p \<le> spos (bstream st'))"

lemma fwdD: "fwd p m \<Longrightarrow> p \<le> spos (bstream st) \<Longrightarrow> m st = (r, st') \<Longrightarrow> p \<le> spos (bstream st')"
  unfolding fwd_def by (erule allE [of _ st], erule allE [of _ r], erule allE [of _ st']) simp

lemma fwd_ret [simp]: "fwd p (ret x)"
  by (simp add: fwd_def ret_def)

lemma fwd_emit [simp]: "fwd p (emit e)"
  by (auto simp add: fwd_def emit_def)

lemma fwd_rint [simp]: "fwd p (rint s)" "fwd p (rint_v s)"
  by (simp_all add: rint_def rint_v_def)

lemma fwd_upd [simp]: "fwd p (upd_stats f)"
  by (auto simp add: fwd_def upd_stats_def)

lemma fwd_bnd:
  assumes m: "fwd p m" and f: "\<And>x. fwd p (f x)"
  shows "fwd p (bnd m f)"
  unfolding fwd_def
proof (intro allI impI)
  fix st r st'
  assume a: "p \<le> spos (bstream st)" and b: "bnd m f st = (r, st')"
  obtain r1 s1 where m1: "m st = (r1, s1)" by (cases "m st")
  have p1: "p \<le> spos (bstream s1)" by (rule fwdD [OF m a m1])
  show "p \<le> spos (bstream st')"
  proof (cases r1)
    case (Ok x)
    with b m1 have "f x s1 = (r, st')" by (simp add: bnd_def)
    then show ?thesis by (rule fwdD [OF f p1])
  next
    case (Raise e)
    with b m1 have "st' = s1" by (simp add: bnd_def)
    then show ?thesis using p1 by simp
  qed
qed

lemma fwd_seq: "fwd p m \<Longrightarrow> fwd p k \<Longrightarrow> fwd p (seq m k)"
  unfolding seq_def by (rule fwd_bnd)

lemma fwd_if: "(c \<Longrightarrow> fwd p a) \<Longrightarrow> (\<not> c \<Longrightarrow> fwd p b) \<Longrightarrow> fwd p (if c then a else b)"
  by (cases c) simp_all

lemma fwd_read [simp]: "fwd p (on_b (read n))"
  by (auto simp add: fwd_def on_b_def read_def read_bytes_def Let_def split: if_splits)

lemma fwd_seek: "p \<le> n \<Longrightarrow> fwd p (on_b_total (\<lambda>b. ((), seek n b)))"
  by (auto simp add: fwd_def on_b_total_def seek_def)

lemma fwd_on_stream [simp]: "fwd p (on_stream s m)"
  by (auto simp add: fwd_def on_stream_def split: prod.splits)

lemma fwd_print_block_header [simp]: "fwd p (print_block_header blockhead)"
  unfolding print_block_header_def by (intro fwd_seq) simp_all

lemma fwd_print_page_header [simp]: "fwd p (print_page_header pagehead)"
  unfolding print_page_header_def by (intro fwd_seq) simp_all

lemma fwd_outfile_stats_end [simp]: "fwd p (outfile_stats_end opts pagehead blockhead)"
  by (cases "csv_output opts") (auto simp add: fwd_def outfile_stats_end_def emit_def ret_def)

lemma fwd_verify_checksum: "fwd p (verify_checksum env p blockhead)"
  by (auto simp add: fwd_def verify_checksum_def read_def read_bytes_def seek_def tell_def
      Let_def dec_defs split: if_splits)

lemma read_spos: "read n s = (r, s') \<Longrightarrow> spos s \<le> spos s'"
  by (auto simp add: read_def read_bytes_def Let_def split: if_splits)

lemma uint_n_spos: "uint_n n s = (v, s') \<Longrightarrow> spos s \<le> spos s'"
  by (auto simp add: uint_n_def read_bytes_def Let_def)

lemma compressed_payload_forward:
  assumes c: "compressed_payload env disk_pos hl blockhead st = (r, st')"
    and ds: "0 \<le> disk_size blockhead" and p: "disk_pos \<le> spos (bstream st)"
  shows "disk_pos \<le> spos (bstream st')"
proof -
  obtain r1 b1 where r1: "read (64 - hl) (bstream st) = (r1, b1)"
    by (cases "read (64 - hl) (bstream st)")
  have p1: "disk_pos \<le> spos b1" using read_spos [OF r1] p by simp
  show ?thesis
  proof (cases r1)
    case (Raise e)
    then show ?thesis using c r1 p1 by (auto simp add: compressed_payload_def)
  next
    case (Ok payload_data)
    obtain n b2 where u: "uint64 b1 = (n, b2)" by (cases "uint64 b1")
    have p2: "disk_pos \<le> spos b2" using uint_n_spos [of 8 b1 n b2] u p1 by (simp add: uint64_def)
    obtain r3 b3 where r3: "read (min n (disk_size blockhead - 72)) b2 = (r3, b3)"
      by (cases "read (min n (disk_size blockhead - 72)) b2")
    have p3: "disk_pos \<le> spos b3" using read_spos [OF r3] p2 by simp
    show ?thesis
    proof (cases r3)
      case (Raise e)
      then show ?thesis using c p3 by (auto simp add: compressed_payload_def r1 Ok u r3)
    next
      case Ok3: (Ok compressed_data)
      have "disk_pos \<le> nat (int disk_pos + disk_size blockhead)" using ds by simp
      then show ?thesis using c
        by (auto simp add: compressed_payload_def r1 Ok u r3 Ok3 seek_def Let_def
            split: option.splits)
    qed
  qed
qed

lemma fwd_block_payload:
  assumes "0 \<le> disk_size blockhead"
  shows "fwd disk_pos (block_payload env opts disk_pos hl pagehead blockhead)"
proof -
  have c: "fwd disk_pos (\<lambda>st. case compressed_payload env disk_pos hl blockhead st of
                  (Some payload_data, st') \<Rightarrow> (Ok (Some payload_data), st')
                | (None, st') \<Rightarrow>
                    seq (rint (lit ''? the page failed to uncompress''))
                   (seq (if debug opts then emit Traceback else ret ())
                        (ret None)) st')"
    unfolding fwd_def
    by (auto simp add: dec_defs split: prod.splits option.splits if_splits
        dest: compressed_payload_forward [OF _ assms])
  have s: "fwd disk_pos (on_b_total (\<lambda>b. ((), seek (nat (int disk_pos + disk_size blockhead)) b)))"
    using assms by (intro fwd_seek) simp
  show ?thesis
    unfolding block_payload_def
    by (intro fwd_if fwd_bnd fwd_seq c s) simp_all
qed

lemma fwd_block_body: "fwd disk_pos (block_body env opts disk_pos page_data pagehead b_page)"
proof -
  obtain blockhead garbage where bh: "block_header_decode b_page = (blockhead, garbage)"
    by (cases "block_header_decode b_page")
  show ?thesis
  proof (cases "garbage \<or> disk_size blockhead > 17 * 1024 * 1024 \<or> disk_size blockhead < 40")
    case True
    then show ?thesis by (auto simp add: block_body_def bh)
  next
    case False
    then have ds: "40 \<le> disk_size blockhead" by simp
    let ?payload = "\<lambda>st. bnd (block_payload env opts disk_pos
                      (int (tell (bstream st)) - int disk_pos) pagehead blockhead)
                    (\<lambda>payload. case payload of
                        None \<Rightarrow> ret ()
                      | Some payload_data \<Rightarrow>
                          seq (on_stream \<lparr>sdata = page_data @ payload_data,
                                          spos = nat (int (tell (bstream st)) - int disk_pos)\<rparr>
                                 (page_contents pagehead payload_data))
                              (outfile_stats_end opts pagehead blockhead)) st"
    let ?seek = "on_b_total (\<lambda>b. ((), seek (nat (int disk_pos + disk_size blockhead)) b))
        :: unit dec"
    let ?k = "\<lambda>ok. if ok then (if skip_data opts then ?seek else ?payload) else ret ()"
    have s: "fwd disk_pos ?seek" using ds by (intro fwd_seek) simp
    have p: "\<And>hl. fwd disk_pos (block_payload env opts disk_pos hl pagehead blockhead)"
      using ds by (intro fwd_block_payload) simp
    have c: "\<And>hl payload. fwd disk_pos (case payload of
                        None \<Rightarrow> ret ()
                      | Some payload_data \<Rightarrow>
                          seq (on_stream \<lparr>sdata = page_data @ payload_data, spos = nat hl\<rparr>
                                 (page_contents pagehead payload_data))
                              (outfile_stats_end opts pagehead blockhead))"
      by (simp add: fwd_seq split: option.splits)
    have q: "\<And>hl. fwd disk_pos
         (bnd (block_payload env opts disk_pos hl pagehead blockhead)
                    (\<lambda>payload. case payload of
                        None \<Rightarrow> ret ()
                      | Some payload_data \<Rightarrow>
                          seq (on_stream \<lparr>sdata = page_data @ payload_data, spos = nat hl\<rparr>
                                 (page_contents pagehead payload_data))
                              (outfile_stats_end opts pagehead blockhead)))"
      by (rule fwd_bnd [OF p c])
    have pl: "fwd disk_pos ?payload"
      unfolding fwd_def
    proof (intro allI impI)
      fix st r st'
      assume a: "disk_pos \<le> spos (bstream st)" and b: "?payload st = (r, st')"
      show "disk_pos \<le> spos (bstream st')" by (rule fwdD [OF q a b])
    qed
    have k: "\<And>ok. fwd disk_pos (?k ok)"
      using s pl by simp
    have "fwd disk_pos (seq (print_block_header blockhead)
      (seq (upd_stats (\<lambda>_. PageStats0))
      (bnd (verify_checksum env disk_pos blockhead) ?k)))"
      by (rule fwd_seq [OF fwd_print_block_header
            fwd_seq [OF fwd_upd fwd_bnd [OF fwd_verify_checksum k]]])
    moreover have "block_body env opts disk_pos page_data pagehead b_page =
      seq (print_block_header blockhead)
      (seq (upd_stats (\<lambda>_. PageStats0))
      (bnd (verify_checksum env disk_pos blockhead) ?k))"
      using False unfolding block_body_def bh Let_def by simp
    ultimately show ?thesis by simp
  qed
qed

lemma block_decode_forward:
  assumes "block_decode env opts st = (r, st')"
  shows "spos (bstream st) \<le> spos (bstream st')"
proof -
  obtain page_data b1 where rb: "read_bytes 40 (bstream st) = (page_data, b1)"
    by (cases "read_bytes 40 (bstream st)")
  then have b1: "spos (bstream st) \<le> spos b1"
    by (auto simp add: read_bytes_def Let_def)
  obtain pagehead unused b_page where
    ph: "page_header_decode \<lparr>sdata = page_data, spos = 0\<rparr> = ((pagehead, unused), b_page)"
    by (cases "page_header_decode \<lparr>sdata = page_data, spos = 0\<rparr>") auto
  let ?st1 = "st\<lparr>bstream := b1\<rparr>"
  have f: "fwd (spos (bstream st))
     (if unused \<noteq> 0 then rint (lit ''? garbage in unused bytes'')
      else if ptype pagehead = 0 then rint (lit ''? invalid page'')
      else seq (print_page_header pagehead)
             (block_body env opts (spos (bstream st)) page_data pagehead b_page))"
    by (intro fwd_if fwd_seq fwd_block_body) simp_all
  have "block_decode env opts st =
     (if unused \<noteq> 0 then rint (lit ''? garbage in unused bytes'')
      else if ptype pagehead = 0 then rint (lit ''? invalid page'')
      else seq (print_page_header pagehead)
             (block_body env opts (spos (bstream st)) page_data pagehead b_page)) ?st1"
    by (simp add: block_decode_def Let_def rb ph tell_def)
  with assms show ?thesis using fwdD [OF f, of ?st1 r st'] b1 by simp
qed

lemma and_not_mask_int: "(x :: int) AND NOT (mask n) = x - x mod 2 ^ n"
proof -
  have "(x AND mask n) + (x AND NOT (mask n)) = (x AND mask n) OR (x AND NOT (mask n))"
    by (rule disjunctive_add) (auto simp add: bit_simps)
  also have "\<dots> = x" by (auto simp add: bit_eq_iff bit_simps)
  finally have "x AND NOT (mask n) = x - (x AND mask n)" by simp
  then show ?thesis by (simp add: take_bit_eq_mask [symmetric] take_bit_eq_mod)
qed

lemma align512_ge: "p \<le> align512 p"
proof -
  have m: "(0x1FF :: int) = mask 9" by (simp add: mask_eq_exp_minus_1)
  have "(int p + 0x1FF) AND NOT 0x1FF = (int p + 0x1FF) - (int p + 0x1FF) mod 512"
    unfolding m and_not_mask_int by simp
  moreover have "(int p + 0x1FF) mod 512 \<le> 511"
    using pos_mod_bound [of 512 "int p + 0x1FF"] by simp
  ultimately have "int p \<le> (int p + 0x1FF) AND NOT 0x1FF" by linarith
  then show ?thesis by (simp add: align512_def)
qed

lemma scan_step_progress:
  assumes "scan_step env opts startblock st = (startblock', st')"
  shows "startblock < startblock'"
proof -
  define st1 where "st1 = snd (seq (outfile_stats_start opts startblock)
                   (seq (emit (Print (''Decode at {}'', [int startblock])))
                        (on_b_total (\<lambda>b. ((), seek startblock b)))) st)"
  have p1: "spos (bstream st1) = startblock"
    by (simp add: st1_def outfile_stats_start_def dec_defs seek_def)
  obtain r s where bd: "block_decode env opts st1 = (r, s)"
    by (cases "block_decode env opts st1")
  from block_decode_forward [OF bd] p1 have ps: "startblock \<le> spos (bstream s)" by simp
  define st2 where "st2 = (case block_decode env opts st1 of
                  (Ok u, s) \<Rightarrow> s
                | (Raise e, s) \<Rightarrow>
                    snd (seq (rint (''ERROR decoding block at {}'', [int startblock]))
                             (if debug opts then emit Traceback else ret ()) s))"
  have p2: "startblock \<le> spos (bstream st2)"
    using ps by (cases r) (simp_all add: st2_def bd dec_defs)
  define st3 where "st3 = snd (rint (lit '''') st2)"
  have p3: "startblock \<le> tell (bstream st3)"
    using p2 by (simp add: st3_def rint_def emit_def tell_def)
  have "scan_step env opts startblock st =
     (if startblock = align512 (tell (bstream st3)) then startblock + 0x200
      else align512 (tell (bstream st3)), st3)"
    by (simp add: scan_step_def Let_def st3_def st2_def st1_def)
  then have "fst (scan_step env opts startblock st) =
     (if startblock = align512 (tell (bstream st3)) then startblock + 0x200
      else align512 (tell (bstream st3)))" by (simp only: fst_conv)
  moreover have "fst (scan_step env opts startblock st) = startblock'"
    by (simp only: assms fst_conv)
  ultimately have "startblock' =
     (if startblock = align512 (tell (bstream st3)) then startblock + 0x200
      else align512 (tell (bstream st3)))" by metis
  moreover have "startblock \<le> align512 (tell (bstream st3))"
    using p3 align512_ge [of "tell (bstream st3)"] by (rule le_trans)
  ultimately show ?thesis
    by (cases "startblock = align512 (tell (bstream st3))") simp_all
qed


lemma scan_blocks_continue:
  assumes "(nbytes = 0 \<or> int startblock < nbytes) \<and> (pages opts = 0 \<or> pagecount < pages opts)"
  shows "\<exists>startblock' st'. scan_step env opts startblock st = (startblock', st')
     \<and> startblock < startblock'
     \<and> scan_blocks env opts nbytes startblock pagecount st
         = scan_blocks env opts nbytes startblock' (pagecount + 1) st'"
proof -
  obtain startblock' st' where s: "scan_step env opts startblock st = (startblock', st')"
    by (cases "scan_step env opts startblock st")
  have "scan_blocks env opts nbytes startblock pagecount st
         = scan_blocks env opts nbytes startblock' (pagecount + 1) st'"
    using assms by (subst scan_blocks.simps) (simp add: s)
  with s scan_step_progress [OF s] show ?thesis by blast
qed

text \<open>
  Claim C4, as the code has it.  The last branch of the type dispatch is taken by every
  long-form cell whose type tag is not one of the six decoded ones (3, 5, 6, 7, 8, 10), so
  also by the unassigned tags 13 to 15, which \<open>celltype_string\<close> names
  \<^verbatim>\<open>*** unknown cell type ***\<close>.  It prints the \<^verbatim>\<open>not implemented\<close> line and
  reads nothing; it does not leave the loop.  So, for every such cell: when the extra
  descriptor and the run length have been read, the line is printed, the raw bytes are
  dumped, and the loop goes on with the next cell number where the stream stands; when
  reading them raises, the exception leaves the loop.  For a cell that has neither, the
  iteration consumes the descriptor byte only and leaves the statistics alone.  The scan
  of the file goes on to a later block whatever \<open>block_decode\<close> returned or raised.
\<close>

theorem unknown_cell_type_continues:
  "(drop_bit 4 (desc AND 0xf0) \<notin> {3, 5, 6, 7, 8, 10} \<longrightarrow>
      cell_typed desc extra ds st =
        (Ok (None, lit ''''),
         st\<lparr>out := out st @ [Rint (fcat ds
            ('', celltype = {} ('' @ celltype_string (drop_bit 4 (desc AND 0xf0))
                @ '') not implemented'',
             [drop_bit 4 (desc AND 0xf0)]))]\<rparr>))
   \<and> (avail (bstream sl) = dl # restl \<and> uint dl AND 0x3 = 0
        \<and> drop_bit 4 (uint dl AND 0xf0) \<notin> {3, 5, 6, 7, 8, 10}
        \<and> int (tell (bstream sl)) < memsize ph \<longrightarrow>
      (case cell_prelude (uint dl) (''desc: 0x{} '', [uint dl])
              (sl\<lparr>bstream := (bstream sl)\<lparr>spos := spos (bstream sl) + 1\<rparr>,
                  out := out sl @ [Begin_cell c (tell (bstream sl))]\<rparr>) of
         (Ok (extra, ds), s1) \<Rightarrow>
           (\<exists>evs sl'. sl' = s1\<lparr>out := out s1 @ Rint (fcat ds
                    ('', celltype = {} ('' @ celltype_string (drop_bit 4 (uint dl AND 0xf0))
                        @ '') not implemented'',
                     [drop_bit 4 (uint dl AND 0xf0)])) # evs @ [End_cell]\<rparr>
              \<and> (\<forall>e \<in> set evs. \<exists>p bs. e = Dump_line p bs)
              \<and> row_cell c (tell (bstream sl)) sl = (Ok (), sl')
              \<and> row_loop ph (Suc n) c sl = row_loop ph n (Suc c) sl')
       | (Raise e, s1) \<Rightarrow>
           row_cell c (tell (bstream sl)) sl = (Raise e, s1\<lparr>out := out s1 @ [End_cell]\<rparr>)
           \<and> row_loop ph (Suc n) c sl = (Raise e, s1\<lparr>out := out s1 @ [End_cell]\<rparr>)))
   \<and> (avail (bstream sp) = d # rest \<and> uint d AND 0xf = 0
        \<and> drop_bit 4 (uint d AND 0xf0) \<notin> {3, 5, 6, 7, 8, 10}
        \<and> int (tell (bstream sp)) < memsize ph \<longrightarrow>
      (\<exists>evs sp'. row_cell c (tell (bstream sp)) sp = (Ok (), sp')
         \<and> bstream sp' = (bstream sp)\<lparr>spos := spos (bstream sp) + 1\<rparr>
         \<and> pagestats sp' = pagestats sp
         \<and> out sp' = out sp @ Begin_cell c (tell (bstream sp))
              # Rint (fcat (''desc: 0x{} '', [uint d])
                  ('', celltype = {} ('' @ celltype_string (drop_bit 4 (uint d AND 0xf0))
                      @ '') not implemented'',
                   [drop_bit 4 (uint d AND 0xf0)]))
              # evs @ [End_cell]
         \<and> (\<forall>e \<in> set evs. \<exists>p bs. e = Dump_line p bs)
         \<and> row_loop ph (Suc n) c sp = row_loop ph n (Suc c) sp'))
   \<and> ((nbytes = 0 \<or> int startblock < nbytes) \<and> (pages opts = 0 \<or> pagecount < pages opts) \<longrightarrow>
      (\<exists>startblock' sf'. scan_step env opts startblock sf = (startblock', sf')
         \<and> startblock < startblock'
         \<and> scan_blocks env opts nbytes startblock pagecount sf
             = scan_blocks env opts nbytes startblock' (pagecount + 1) sf'))"
proof (intro conjI impI)
  assume "drop_bit 4 (desc AND 0xf0) \<notin> {3, 5, 6, 7, 8, 10}"
  then show "cell_typed desc extra ds st =
        (Ok (None, lit ''''),
         st\<lparr>out := out st @ [Rint (fcat ds
            ('', celltype = {} ('' @ celltype_string (drop_bit 4 (desc AND 0xf0))
                @ '') not implemented'',
             [drop_bit 4 (desc AND 0xf0)]))]\<rparr>)"
    by (rule typed_other)
next
  assume h: "avail (bstream sl) = dl # restl \<and> uint dl AND 0x3 = 0
        \<and> drop_bit 4 (uint dl AND 0xf0) \<notin> {3, 5, 6, 7, 8, 10}
        \<and> int (tell (bstream sl)) < memsize ph"
  then have a: "avail (bstream sl) = dl # restl" and lo: "uint dl AND 0x3 = 0"
    and ty: "drop_bit 4 (uint dl AND 0xf0) \<notin> {3, 5, 6, 7, 8, 10}"
    and m: "\<not> memsize ph \<le> int (tell (bstream sl))" by simp_all
  define s0 where "s0 = sl\<lparr>bstream := (bstream sl)\<lparr>spos := spos (bstream sl) + 1\<rparr>,
                  out := out sl @ [Begin_cell c (tell (bstream sl))]\<rparr>"
  obtain r s1 where pre: "cell_prelude (uint dl) (''desc: 0x{} '', [uint dl]) s0 = (r, s1)"
    by (cases "cell_prelude (uint dl) (''desc: 0x{} '', [uint dl]) s0")
  note rc = row_cell_long_other [OF a lo ty, of c "tell (bstream sl)", folded s0_def]
  have "case cell_prelude (uint dl) (''desc: 0x{} '', [uint dl]) s0 of
         (Ok (extra, ds), s1) \<Rightarrow>
           (\<exists>evs sl'. sl' = s1\<lparr>out := out s1 @ Rint (fcat ds
                    ('', celltype = {} ('' @ celltype_string (drop_bit 4 (uint dl AND 0xf0))
                        @ '') not implemented'',
                     [drop_bit 4 (uint dl AND 0xf0)])) # evs @ [End_cell]\<rparr>
              \<and> (\<forall>e \<in> set evs. \<exists>p bs. e = Dump_line p bs)
              \<and> row_cell c (tell (bstream sl)) sl = (Ok (), sl')
              \<and> row_loop ph (Suc n) c sl = row_loop ph n (Suc c) sl')
       | (Raise e, s1) \<Rightarrow>
           row_cell c (tell (bstream sl)) sl = (Raise e, s1\<lparr>out := out s1 @ [End_cell]\<rparr>)
           \<and> row_loop ph (Suc n) c sl = (Raise e, s1\<lparr>out := out s1 @ [End_cell]\<rparr>)"
  proof (cases r)
    case (Raise e)
    with rc pre have "row_cell c (tell (bstream sl)) sl
        = (Raise e, s1\<lparr>out := out s1 @ [End_cell]\<rparr>)" by simp
    moreover from this m have "row_loop ph (Suc n) c sl
        = (Raise e, s1\<lparr>out := out s1 @ [End_cell]\<rparr>)" by (simp add: Let_def)
    ultimately show ?thesis by (simp add: pre Raise)
  next
    case (Ok x)
    obtain extra' ds' where x: "x = (extra', ds')" by (cases x)
    let ?r = "Rint (fcat ds'
                    ('', celltype = {} ('' @ celltype_string (drop_bit 4 (uint dl AND 0xf0))
                        @ '') not implemented'',
                     [drop_bit 4 (uint dl AND 0xf0)]))"
    from rc pre Ok x obtain evs where
      r1: "row_cell c (tell (bstream sl)) sl
          = (Ok (), s1\<lparr>out := out s1 @ ?r # evs @ [End_cell]\<rparr>)"
      and e: "\<forall>e \<in> set evs. \<exists>p bs. e = Dump_line p bs" by auto
    from r1 m have "row_loop ph (Suc n) c sl
        = row_loop ph n (Suc c) (s1\<lparr>out := out s1 @ ?r # evs @ [End_cell]\<rparr>)"
      by (simp add: Let_def)
    with r1 e have "\<exists>evs sl'. sl' = s1\<lparr>out := out s1 @ ?r # evs @ [End_cell]\<rparr>
              \<and> (\<forall>e \<in> set evs. \<exists>p bs. e = Dump_line p bs)
              \<and> row_cell c (tell (bstream sl)) sl = (Ok (), sl')
              \<and> row_loop ph (Suc n) c sl = row_loop ph n (Suc c) sl'" by blast
    then show ?thesis by (simp add: pre Ok x)
  qed
  then show "case cell_prelude (uint dl) (''desc: 0x{} '', [uint dl])
              (sl\<lparr>bstream := (bstream sl)\<lparr>spos := spos (bstream sl) + 1\<rparr>,
                  out := out sl @ [Begin_cell c (tell (bstream sl))]\<rparr>) of
         (Ok (extra, ds), s1) \<Rightarrow>
           (\<exists>evs sl'. sl' = s1\<lparr>out := out s1 @ Rint (fcat ds
                    ('', celltype = {} ('' @ celltype_string (drop_bit 4 (uint dl AND 0xf0))
                        @ '') not implemented'',
                     [drop_bit 4 (uint dl AND 0xf0)])) # evs @ [End_cell]\<rparr>
              \<and> (\<forall>e \<in> set evs. \<exists>p bs. e = Dump_line p bs)
              \<and> row_cell c (tell (bstream sl)) sl = (Ok (), sl')
              \<and> row_loop ph (Suc n) c sl = row_loop ph n (Suc c) sl')
       | (Raise e, s1) \<Rightarrow>
           row_cell c (tell (bstream sl)) sl = (Raise e, s1\<lparr>out := out s1 @ [End_cell]\<rparr>)
           \<and> row_loop ph (Suc n) c sl = (Raise e, s1\<lparr>out := out s1 @ [End_cell]\<rparr>)"
    unfolding s0_def .
next
  let ?r = "Rint (fcat (''desc: 0x{} '', [uint d])
                  ('', celltype = {} ('' @ celltype_string (drop_bit 4 (uint d AND 0xf0))
                      @ '') not implemented'',
                   [drop_bit 4 (uint d AND 0xf0)]))"
  assume h: "avail (bstream sp) = d # rest \<and> uint d AND 0xf = 0
        \<and> drop_bit 4 (uint d AND 0xf0) \<notin> {3, 5, 6, 7, 8, 10}
        \<and> int (tell (bstream sp)) < memsize ph"
  then have a: "avail (bstream sp) = d # rest" and lo: "uint d AND 0xf = 0"
    and ty: "drop_bit 4 (uint d AND 0xf0) \<notin> {3, 5, 6, 7, 8, 10}"
    and m: "\<not> memsize ph \<le> int (tell (bstream sp))" by simp_all
  from row_cell_other [OF a lo ty, of c "tell (bstream sp)"] obtain evs where
    rc: "row_cell c (tell (bstream sp)) sp =
      (Ok (), sp\<lparr>bstream := (bstream sp)\<lparr>spos := spos (bstream sp) + 1\<rparr>,
        out := out sp @ Begin_cell c (tell (bstream sp)) # ?r # evs @ [End_cell]\<rparr>)"
    and e: "\<forall>e \<in> set evs. \<exists>p bs. e = Dump_line p bs" by blast
  define sp' where "sp' = sp\<lparr>bstream := (bstream sp)\<lparr>spos := spos (bstream sp) + 1\<rparr>,
        out := out sp @ Begin_cell c (tell (bstream sp)) # ?r # evs @ [End_cell]\<rparr>"
  have rc': "row_cell c (tell (bstream sp)) sp = (Ok (), sp')" using rc by (simp add: sp'_def)
  have l: "row_loop ph (Suc n) c sp = row_loop ph n (Suc c) sp'"
    using m by (simp add: Let_def rc')
  have "bstream sp' = (bstream sp)\<lparr>spos := spos (bstream sp) + 1\<rparr>"
    "pagestats sp' = pagestats sp"
    "out sp' = out sp @ Begin_cell c (tell (bstream sp)) # ?r # evs @ [End_cell]"
    by (simp_all add: sp'_def)
  with rc' e l show "\<exists>evs sp'. row_cell c (tell (bstream sp)) sp = (Ok (), sp')
         \<and> bstream sp' = (bstream sp)\<lparr>spos := spos (bstream sp) + 1\<rparr>
         \<and> pagestats sp' = pagestats sp
         \<and> out sp' = out sp @ Begin_cell c (tell (bstream sp)) # ?r # evs @ [End_cell]
         \<and> (\<forall>e \<in> set evs. \<exists>p bs. e = Dump_line p bs)
         \<and> row_loop ph (Suc n) c sp = row_loop ph n (Suc c) sp'" by blast
next
  assume "(nbytes = 0 \<or> int startblock < nbytes) \<and> (pages opts = 0 \<or> pagecount < pages opts)"
  then show "\<exists>startblock' sf'. scan_step env opts startblock sf = (startblock', sf')
         \<and> startblock < startblock'
         \<and> scan_blocks env opts nbytes startblock pagecount sf
             = scan_blocks env opts nbytes startblock' (pagecount + 1) sf'"
    by (rule scan_blocks_continue)
qed


theorem unknown_cell_type_continues_witness:
  "cell_typed 0xD0 0 (lit ''desc'')
      \<lparr>bstream = \<lparr>sdata = [0xD0, 0x05, 0x41], spos = 1\<rparr>, pagestats = PageStats0, out = []\<rparr>
     = (Ok (None, lit ''''),
        \<lparr>bstream = \<lparr>sdata = [0xD0, 0x05, 0x41], spos = 1\<rparr>, pagestats = PageStats0,
         out = [Rint (''desc, celltype = {} (*** unknown cell type ***) not implemented'',
                  [13])]\<rparr>)
   \<and> (\<exists>sl'. row_cell 0 0
          \<lparr>bstream = \<lparr>sdata = [0xD8, 0x02, 0x80, 0x05, 0x41], spos = 0\<rparr>,
           pagestats = PageStats0, out = []\<rparr> = (Ok (), sl')
        \<and> bstream sl' = \<lparr>sdata = [0xD8, 0x02, 0x80, 0x05, 0x41], spos = 3\<rparr>
        \<and> num_d_start_ts (pagestats sl') = 1
        \<and> row_loop \<lparr>recno = 0, writegen = 0, memsize = 100, ncells = 2, ptype = 7,
              pflags = 0, version = 1\<rparr> (Suc 1) 0
            \<lparr>bstream = \<lparr>sdata = [0xD8, 0x02, 0x80, 0x05, 0x41], spos = 0\<rparr>,
             pagestats = PageStats0, out = []\<rparr>
          = row_loop \<lparr>recno = 0, writegen = 0, memsize = 100, ncells = 2, ptype = 7,
              pflags = 0, version = 1\<rparr> 1 (Suc 0) sl')
   \<and> row_loop \<lparr>recno = 0, writegen = 0, memsize = 100, ncells = 2, ptype = 7,
              pflags = 0, version = 1\<rparr> (Suc 1) 0
        \<lparr>bstream = \<lparr>sdata = [0xD8], spos = 0\<rparr>, pagestats = PageStats0, out = []\<rparr>
      = (Raise IndexError,
         \<lparr>bstream = \<lparr>sdata = [0xD8], spos = 1\<rparr>, pagestats = PageStats0,
          out = [Begin_cell 0 0, End_cell]\<rparr>)
   \<and> (\<exists>sp'. row_cell 0 0
          \<lparr>bstream = \<lparr>sdata = [0xD0, 0x05, 0x41], spos = 0\<rparr>, pagestats = PageStats0,
           out = []\<rparr> = (Ok (), sp')
        \<and> bstream sp' = \<lparr>sdata = [0xD0, 0x05, 0x41], spos = 1\<rparr>
        \<and> pagestats sp' = PageStats0
        \<and> row_loop \<lparr>recno = 0, writegen = 0, memsize = 100, ncells = 2, ptype = 7,
              pflags = 0, version = 1\<rparr> (Suc 1) 0
            \<lparr>bstream = \<lparr>sdata = [0xD0, 0x05, 0x41], spos = 0\<rparr>, pagestats = PageStats0,
             out = []\<rparr>
          = row_loop \<lparr>recno = 0, writegen = 0, memsize = 100, ncells = 2, ptype = 7,
              pflags = 0, version = 1\<rparr> 1 (Suc 0) sp')
   \<and> (\<exists>startblock' sf'.
         scan_step
           \<lparr>have_crc32c = False, crc32c = (\<lambda>_. 0), have_snappy = False,
             uncompress = (\<lambda>_. None)\<rparr>
           \<lparr>offset = 0, pages = 0, fragment = True, skip_data = False, debug = False,
             csv_output = False\<rparr> 0
           \<lparr>bstream = \<lparr>sdata = [0,0,0,0,0,0,0,0, 0,0,0,0,0,0,0,0, 42,0,0,0, 1,0,0,0,
                                  7,0,0,1, 42,0,0,0, 0,0,0,0, 0,0,0,0, 0xD4, 0x00],
                        spos = 0\<rparr>,
            pagestats = PageStats0, out = []\<rparr> = (startblock', sf')
       \<and> 0 < startblock'
       \<and> scan_blocks
           \<lparr>have_crc32c = False, crc32c = (\<lambda>_. 0), have_snappy = False,
             uncompress = (\<lambda>_. None)\<rparr>
           \<lparr>offset = 0, pages = 0, fragment = True, skip_data = False, debug = False,
             csv_output = False\<rparr> 42 0 0
           \<lparr>bstream = \<lparr>sdata = [0,0,0,0,0,0,0,0, 0,0,0,0,0,0,0,0, 42,0,0,0, 1,0,0,0,
                                  7,0,0,1, 42,0,0,0, 0,0,0,0, 0,0,0,0, 0xD4, 0x00],
                        spos = 0\<rparr>,
            pagestats = PageStats0, out = []\<rparr>
         = scan_blocks
           \<lparr>have_crc32c = False, crc32c = (\<lambda>_. 0), have_snappy = False,
             uncompress = (\<lambda>_. None)\<rparr>
           \<lparr>offset = 0, pages = 0, fragment = True, skip_data = False, debug = False,
             csv_output = False\<rparr> 42 startblock' (0 + 1) sf')"
proof -
  let ?ph = "\<lparr>recno = 0, writegen = 0, memsize = 100, ncells = 2, ptype = 7,
              pflags = 0, version = 1\<rparr> :: PageHeader"
  let ?s1 = "\<lparr>bstream = \<lparr>sdata = [0xD0, 0x05, 0x41], spos = 1\<rparr>, pagestats = PageStats0,
      out = []\<rparr> :: dstate"
  let ?s0 = "\<lparr>bstream = \<lparr>sdata = [0xD0, 0x05, 0x41], spos = 0\<rparr>, pagestats = PageStats0,
      out = []\<rparr> :: dstate"
  let ?sl = "\<lparr>bstream = \<lparr>sdata = [0xD8, 0x02, 0x80, 0x05, 0x41], spos = 0\<rparr>,
      pagestats = PageStats0, out = []\<rparr> :: dstate"
  let ?sr = "\<lparr>bstream = \<lparr>sdata = [0xD8], spos = 0\<rparr>, pagestats = PageStats0,
      out = []\<rparr> :: dstate"
  let ?env = "\<lparr>have_crc32c = False, crc32c = (\<lambda>_. 0), have_snappy = False,
             uncompress = (\<lambda>_. None)\<rparr> :: env"
  let ?opts = "\<lparr>offset = 0, pages = 0, fragment = True, skip_data = False, debug = False,
             csv_output = False\<rparr> :: opts"
  let ?sf = "\<lparr>bstream = \<lparr>sdata = [0,0,0,0,0,0,0,0, 0,0,0,0,0,0,0,0, 42,0,0,0, 1,0,0,0,
                                  7,0,0,1, 42,0,0,0, 0,0,0,0, 0,0,0,0, 0xD4, 0x00],
                        spos = 0\<rparr>,
            pagestats = PageStats0, out = []\<rparr> :: dstate"
  note t = unknown_cell_type_continues
  have tag: "drop_bit 4 ((0xD0 :: int) AND 0xf0) = 13" by code_simp
  have tagw: "drop_bit 4 (uint (0xD0 :: byte) AND 0xf0) = 13" by code_simp
  have tagl: "drop_bit 4 (uint (0xD8 :: byte) AND 0xf0) = 13" by code_simp
  have low: "uint (0xD0 :: byte) AND 0xf = 0" by code_simp
  have lowl: "uint (0xD8 :: byte) AND 0x3 = 0" by code_simp
  have name: "celltype_string 13 = ''*** unknown cell type ***''" by code_simp
  \<comment> \<open>the type dispatch\<close>
  from t [where desc = "0xD0" and extra = 0 and ds = "lit ''desc''" and st = "?s1"]
  have "cell_typed 0xD0 0 (lit ''desc'') ?s1 =
      (Ok (None, lit ''''),
       ?s1\<lparr>out := out ?s1 @ [Rint (fcat (lit ''desc'')
            ('', celltype = {} ('' @ celltype_string 13 @ '') not implemented'', [13]))]\<rparr>)"
    unfolding tag by simp
  then have first: "cell_typed 0xD0 0 (lit ''desc'') ?s1 =
      (Ok (None, lit ''''),
        \<lparr>bstream = \<lparr>sdata = [0xD0, 0x05, 0x41], spos = 1\<rparr>, pagestats = PageStats0,
         out = [Rint (''desc, celltype = {} (*** unknown cell type ***) not implemented'',
                  [13])]\<rparr>)"
    by (simp add: name fcat_def lit_def)
  \<comment> \<open>a cell with an extra descriptor and a timestamp\<close>
  have hl: "avail (bstream ?sl) = 0xD8 # [0x02, 0x80, 0x05, 0x41] \<and> uint (0xD8 :: byte) AND 0x3 = 0
        \<and> drop_bit 4 (uint (0xD8 :: byte) AND 0xf0) \<notin> {3, 5, 6, 7, 8, 10}
        \<and> int (tell (bstream ?sl)) < memsize ?ph"
    unfolding tagl lowl by (simp add: avail_def tell_def)
  have prel: "cell_prelude (uint (0xD8 :: byte)) (''desc: 0x{} '', [uint (0xD8 :: byte)])
              (?sl\<lparr>bstream := (bstream ?sl)\<lparr>spos := spos (bstream ?sl) + 1\<rparr>,
                  out := out ?sl @ [Begin_cell 0 (tell (bstream ?sl))]\<rparr>)
      = (Ok (2, lit ''''),
         \<lparr>bstream = \<lparr>sdata = [0xD8, 0x02, 0x80, 0x05, 0x41], spos = 3\<rparr>,
          pagestats = PageStats0\<lparr>d_start_ts_sz := 1, num_d_start_ts := 1\<rparr>,
          out = [Begin_cell 0 0, Rint_v (''desc: 0x{} extra: 0x{}'', [216, 2]),
                 Rint_v (lit ''cell has timestamps:''),
                 Rint_v ('' durable start ts: {}'', [0])]\<rparr>)"
    by code_simp
  note b = t [THEN conjunct2, THEN conjunct1, rule_format]
  from b [where sl = "?sl" and dl = "0xD8" and restl = "[0x02, 0x80, 0x05, 0x41]"
      and ph = "?ph" and c = 0 and n = 1, OF hl, unfolded prel]
  have second: "\<exists>sl'. row_cell 0 0 ?sl = (Ok (), sl')
        \<and> bstream sl' = \<lparr>sdata = [0xD8, 0x02, 0x80, 0x05, 0x41], spos = 3\<rparr>
        \<and> num_d_start_ts (pagestats sl') = 1
        \<and> row_loop ?ph (Suc 1) 0 ?sl = row_loop ?ph 1 (Suc 0) sl'"
    by (auto simp add: tell_def)
  \<comment> \<open>a cell whose extra descriptor is missing\<close>
  have hr: "avail (bstream ?sr) = 0xD8 # [] \<and> uint (0xD8 :: byte) AND 0x3 = 0
        \<and> drop_bit 4 (uint (0xD8 :: byte) AND 0xf0) \<notin> {3, 5, 6, 7, 8, 10}
        \<and> int (tell (bstream ?sr)) < memsize ?ph"
    unfolding tagl lowl by (simp add: avail_def tell_def)
  have prer: "cell_prelude (uint (0xD8 :: byte)) (''desc: 0x{} '', [uint (0xD8 :: byte)])
              (?sr\<lparr>bstream := (bstream ?sr)\<lparr>spos := spos (bstream ?sr) + 1\<rparr>,
                  out := out ?sr @ [Begin_cell 0 (tell (bstream ?sr))]\<rparr>)
      = (Raise IndexError,
         \<lparr>bstream = \<lparr>sdata = [0xD8], spos = 1\<rparr>, pagestats = PageStats0,
          out = [Begin_cell 0 0]\<rparr>)"
    by code_simp
  from b [where sl = "?sr" and dl = "0xD8" and restl = "[]"
      and ph = "?ph" and c = 0 and n = 1, OF hr, unfolded prer]
  have third: "row_loop ?ph (Suc 1) 0 ?sr = (Raise IndexError,
         \<lparr>bstream = \<lparr>sdata = [0xD8], spos = 1\<rparr>, pagestats = PageStats0,
          out = [Begin_cell 0 0, End_cell]\<rparr>)"
    by simp
  \<comment> \<open>a cell with the descriptor only\<close>
  have hyp: "avail (bstream ?s0) = 0xD0 # [0x05, 0x41] \<and> uint (0xD0 :: byte) AND 0xf = 0
        \<and> drop_bit 4 (uint (0xD0 :: byte) AND 0xf0) \<notin> {3, 5, 6, 7, 8, 10}
        \<and> int (tell (bstream ?s0)) < memsize ?ph"
    unfolding tagw low by (simp add: avail_def tell_def)
  from t [where sp = "?s0" and d = "0xD0" and rest = "[0x05, 0x41]" and ph = "?ph"
      and c = 0 and n = 1] hyp
  obtain sp' where "row_cell 0 (tell (bstream ?s0)) ?s0 = (Ok (), sp')"
    "bstream sp' = (bstream ?s0)\<lparr>spos := spos (bstream ?s0) + 1\<rparr>"
    "pagestats sp' = pagestats ?s0"
    "row_loop ?ph (Suc 1) 0 ?s0 = row_loop ?ph 1 (Suc 0) sp'"
    by blast
  then have "row_cell 0 0 ?s0 = (Ok (), sp')
      \<and> bstream sp' = \<lparr>sdata = [0xD0, 0x05, 0x41], spos = 1\<rparr>
      \<and> pagestats sp' = PageStats0
      \<and> row_loop ?ph (Suc 1) 0 ?s0 = row_loop ?ph 1 (Suc 0) sp'"
    by (simp add: tell_def)
  then have fourth: "\<exists>sp'. row_cell 0 0 ?s0 = (Ok (), sp')
      \<and> bstream sp' = \<lparr>sdata = [0xD0, 0x05, 0x41], spos = 1\<rparr>
      \<and> pagestats sp' = PageStats0
      \<and> row_loop ?ph (Suc 1) 0 ?s0 = row_loop ?ph 1 (Suc 0) sp'" by blast
  \<comment> \<open>the scan after a block that raised\<close>
  have hf: "((42 :: int) = 0 \<or> int 0 < 42) \<and> (pages ?opts = 0 \<or> (0 :: int) < pages ?opts)"
    by simp
  note f = t [THEN conjunct2, THEN conjunct2, THEN conjunct2, rule_format]
  from f [where nbytes = 42 and startblock = 0 and opts = "?opts" and pagecount = 0
      and env = "?env" and sf = "?sf", OF hf]
  have fifth: "\<exists>startblock' sf'. scan_step ?env ?opts 0 ?sf = (startblock', sf')
       \<and> 0 < startblock'
       \<and> scan_blocks ?env ?opts 42 0 0 ?sf = scan_blocks ?env ?opts 42 startblock' (0 + 1) sf'"
    by simp
  from first second third fourth fifth show ?thesis by (intro conjI)
qed


text \<open>
  The claim as it is written fails on a page of two cells, \<^verbatim>\<open>d0\<close> followed by the
  short key \<^verbatim>\<open>05 41\<close>: after the line about the unknown type 13 the decoder begins
  cell 1 at offset 1, prints the key and counts it.
\<close>

theorem unknown_cell_type_counterexample:
  "row_decode \<lparr>recno = 0, writegen = 0, memsize = 100, ncells = 2, ptype = 7, pflags = 0,
          version = 1\<rparr>
      \<lparr>bstream = \<lparr>sdata = [0xD0, 0x05, 0x41], spos = 0\<rparr>, pagestats = PageStats0, out = []\<rparr>
    = (Ok (),
       \<lparr>bstream = \<lparr>sdata = [0xD0, 0x05, 0x41], spos = 3\<rparr>,
        pagestats = PageStats0\<lparr>num_keys := 1, keys_sz := 1\<rparr>,
        out = [Begin_cell 0 0,
               Rint (''desc: 0x{} , celltype = {} (*** unknown cell type ***) not implemented'',
                     [208, 13]),
               Dump_line 0 [0xD0, 0x05, 0x41],
               End_cell,
               Begin_cell 1 1,
               Rint_v (''desc: 0x{} short key {} bytes:'', [5, 1]),
               Rint_v_raw (Shown [] [0x41]),
               End_cell]\<rparr>)"
  by code_simp

end
